theory Spec2Isabelle
  imports Complex_Main "HOL-Library.AList"
begin

section \<open>Data model\<close>

text \<open>
  Router identifiers are the strings of the topology file (\<open>R0\<close>, \<open>R1\<close>, ...).
  A Python dictionary keeps its keys in insertion order; it is modelled as an association
  list with \<open>AList.update\<close> for \<open>d[k] = v\<close> (an existing key keeps its place, a
  new key goes to the end) and \<open>AList.delete\<close> for \<open>del d[k]\<close>.
  Python numbers (link costs, time stamps) are idealised as reals.
\<close>

type_synonym node = string

datatype py_error =
  KeyError | IndexError | ValueError | ZeroDivisionError | NetworkXNoPath | NodeNotFound

subsection \<open>The undirected graph of networkx\<close>

text \<open>
  \<open>nx.Graph\<close> holds two dictionaries: \<open>_node\<close> maps a node to its attributes (here only
  \<open>seq\<close>, which a node created by \<open>add_edge\<close> does not have) and \<open>_adj\<close> maps a
  node to the dictionary of its neighbours, each with the edge attribute \<open>cost\<close>.
  An undirected edge \<open>u - v\<close> is stored twice, as \<open>_adj[u][v]\<close> and \<open>_adj[v][u]\<close>.
\<close>

record graph =
  g_node :: "(node \<times> int option) list"
  g_adj :: "(node \<times> (node \<times> real) list) list"

definition empty_graph :: graph where
  "empty_graph = \<lparr>g_node = [], g_adj = []\<rparr>"

text \<open>\<open>k in d\<close> for a dictionary \<open>d\<close>.\<close>

definition dict_has :: "('k \<times> 'v) list \<Rightarrow> 'k \<Rightarrow> bool" where
  "dict_has d k = (map_of d k \<noteq> None)"

definition has_node :: "graph \<Rightarrow> node \<Rightarrow> bool" where
  "has_node g n = dict_has (g_node g) n"

definition adj_of :: "graph \<Rightarrow> node \<Rightarrow> (node \<times> real) list" where
  "adj_of g u = (case map_of (g_adj g) u of None \<Rightarrow> [] | Some al \<Rightarrow> al)"

definition edge_cost :: "graph \<Rightarrow> node \<Rightarrow> node \<Rightarrow> real option" where
  "edge_cost g u v = map_of (adj_of g u) v"

definition touch_node :: "node \<Rightarrow> graph \<Rightarrow> graph" where
  "touch_node n g =
     (if has_node g n then g
      else g\<lparr>g_adj := AList.update n [] (g_adj g), g_node := AList.update n None (g_node g)\<rparr>)"

definition add_node :: "node \<Rightarrow> int \<Rightarrow> graph \<Rightarrow> graph" where
  "add_node n s g =
     (let g1 = touch_node n g in g1\<lparr>g_node := AList.update n (Some s) (g_node g1)\<rparr>)"

definition set_adj :: "node \<Rightarrow> node \<Rightarrow> real \<Rightarrow> graph \<Rightarrow> graph" where
  "set_adj u v c g = g\<lparr>g_adj := AList.update u (AList.update v c (adj_of g u)) (g_adj g)\<rparr>"

definition add_edge :: "node \<Rightarrow> node \<Rightarrow> real \<Rightarrow> graph \<Rightarrow> graph" where
  "add_edge u v c g = set_adj v u c (set_adj u v c (touch_node v (touch_node u g)))"

definition del_adj :: "node \<Rightarrow> node \<Rightarrow> graph \<Rightarrow> graph" where
  "del_adj u v g = g\<lparr>g_adj := AList.update u (AList.delete v (adj_of g u)) (g_adj g)\<rparr>"

definition remove_edge :: "node \<times> node \<Rightarrow> graph \<Rightarrow> graph" where
  "remove_edge e g =
     (case e of (u, v) \<Rightarrow>
        if dict_has (g_adj g) u \<and> dict_has (adj_of g u) v
        then (let g1 = del_adj u v g in if u \<noteq> v then del_adj v u g1 else g1)
        else g)"

definition remove_edges_from :: "(node \<times> node) list \<Rightarrow> graph \<Rightarrow> graph" where
  "remove_edges_from es g = fold remove_edge es g"

definition edges_at :: "graph \<Rightarrow> node \<Rightarrow> (node \<times> node) list" where
  "edges_at g n = map (\<lambda>(v, c). (n, v)) (adj_of g n)"

subsection \<open>Advertisements and the signature simulation\<close>

record lsu_data =
  source_id :: node
  sequence_number :: int
  links :: "(node \<times> real) list"

record lsu =
  data :: lsu_data
  signature :: int

text \<open>
  \<open>sign_message\<close> is \<open>hash(str(message) + PUBLIC_KEYS[source_id])\<close>. The key table comes
  from the configuration file and \<open>hash\<close>, \<open>str\<close> are Python built-ins; all three are
  parameters of the model. A source without a key raises \<open>KeyError\<close>.
\<close>

record env =
  PUBLIC_KEYS :: "(node \<times> string) list"
  py_str :: "lsu_data \<Rightarrow> string"
  py_hash :: "string \<Rightarrow> int"

definition sign_message :: "env \<Rightarrow> lsu_data \<Rightarrow> node \<Rightarrow> py_error + int" where
  "sign_message E message src =
     (case map_of (PUBLIC_KEYS E) src of
        None \<Rightarrow> Inl KeyError
      | Some k \<Rightarrow> Inr (py_hash E (py_str E message @ k)))"

definition verify_signature :: "env \<Rightarrow> lsu_data \<Rightarrow> int \<Rightarrow> node \<Rightarrow> py_error + bool" where
  "verify_signature E message sig src =
     (case sign_message E message src of Inl e \<Rightarrow> Inl e | Inr h \<Rightarrow> Inr (sig = h))"

subsection \<open>The router\<close>

record route =
  next_hop :: node
  total_cost :: real
  path :: "node list"
  backup_path :: "node list option"
  backup_cost :: "real option"

record router =
  router_id :: node
  topology :: graph
  own_sequence_number :: int
  routing_table :: "(node \<times> route) list"
  w1 :: real
  w2 :: real
  lsu_timestamps :: "real list"
  lsu_rate_limit :: nat
  lsu_window :: real

definition Router_init :: "node \<Rightarrow> real \<Rightarrow> real \<Rightarrow> router" where
  "Router_init rid w1_latency w2_bandwidth =
     \<lparr>router_id = rid, topology = empty_graph, own_sequence_number = 0, routing_table = [],
      w1 = w1_latency, w2 = w2_bandwidth, lsu_timestamps = [], lsu_rate_limit = 10,
      lsu_window = 1\<rparr>"

text \<open>
  \<open>process_lsu\<close> returns \<open>True\<close> when the advertisement is accepted and \<open>False\<close> on each
  of its three early returns; the outcome names the return statement taken.
\<close>

datatype outcome = Accepted | Stale | InvalidTag | RateLimited

definition returned :: "outcome \<Rightarrow> bool" where
  "returned out = (out = Accepted)"

definition evict :: "real \<Rightarrow> router \<Rightarrow> real list" where
  "evict current_time r = filter (\<lambda>t. current_time - t \<le> lsu_window r) (lsu_timestamps r)"

definition stored_seq :: "graph \<Rightarrow> node \<Rightarrow> int" where
  "stored_seq g n = (case map_of (g_node g) n of Some (Some s) \<Rightarrow> s | _ \<Rightarrow> 0)"

definition install_links :: "node \<Rightarrow> (node \<times> real) list \<Rightarrow> graph \<Rightarrow> graph" where
  "install_links src ls g = fold (\<lambda>(neighbor, c). add_edge src neighbor c) ls g"

definition process_lsu :: "env \<Rightarrow> real \<Rightarrow> router \<Rightarrow> lsu \<Rightarrow> py_error + (outcome \<times> router)" where
  "process_lsu E current_time r0 l =
     (let r = r0\<lparr>lsu_timestamps := evict current_time r0\<rparr> in
      if length (lsu_timestamps r) \<ge> lsu_rate_limit r then Inr (RateLimited, r)
      else
        let d = data l; src = source_id d in
        case verify_signature E d (signature l) src of
          Inl e \<Rightarrow> Inl e
        | Inr ok \<Rightarrow>
            if \<not> ok then Inr (InvalidTag, r)
            else if has_node (topology r) src \<and> stored_seq (topology r) src \<ge> sequence_number d
            then Inr (Stale, r)
            else
              let g1 = add_node src (sequence_number d) (topology r);
                  old_edges = edges_at g1 src;
                  g2 = remove_edges_from old_edges g1;
                  g3 = install_links src (links d) g2
              in Inr (Accepted, r\<lparr>lsu_timestamps := lsu_timestamps r @ [current_time],
                                  topology := g3\<rparr>))"

subsection \<open>Shortest paths of networkx\<close>

text \<open>
  \<open>_dijkstra_multisource\<close> of networkx with one source and a target. The fringe is a
  \<open>heapq\<close> of triples \<open>(distance, counter, node)\<close>; the counter is unique, so
  \<open>heappop\<close> returns the triple that is least by distance and then by counter, whatever
  the layout of the heap. \<open>paths\<close> is the optional dictionary of paths:
  \<open>dijkstra_path\<close> passes one, \<open>dijkstra_path_length\<close> passes none. A popped node
  that is already final is skipped; an edge that would shorten a final distance raises
  \<open>ValueError\<close> (negative weights).
\<close>

record dstate =
  d_dist :: "(node \<times> real) list"
  d_seen :: "(node \<times> real) list"
  d_fringe :: "(real \<times> nat \<times> node) list"
  d_count :: nat
  d_paths :: "(node \<times> node list) list option"

fun heap_less :: "real \<times> nat \<times> node \<Rightarrow> real \<times> nat \<times> node \<Rightarrow> bool" where
  "heap_less (d1, c1, _) (d2, c2, _) = (d1 < d2 \<or> (d1 = d2 \<and> c1 < c2))"

fun heap_min :: "real \<times> nat \<times> node \<Rightarrow> (real \<times> nat \<times> node) list \<Rightarrow> real \<times> nat \<times> node" where
  "heap_min m [] = m"
| "heap_min m (x # xs) = heap_min (if heap_less x m then x else m) xs"

definition heappop :: "(real \<times> nat \<times> node) list \<Rightarrow> ((real \<times> nat \<times> node) \<times> (real \<times> nat \<times> node) list) option" where
  "heappop h = (case h of [] \<Rightarrow> None | x # xs \<Rightarrow> (let m = heap_min x xs in Some (m, remove1 m h)))"

definition relax_step :: "node \<Rightarrow> real \<Rightarrow> node \<times> real \<Rightarrow> dstate \<Rightarrow> py_error + dstate" where
  "relax_step v dv e s =
     (case e of (u, cost) \<Rightarrow>
        let vu_dist = dv + cost in
        case map_of (d_dist s) u of
          Some u_dist \<Rightarrow> if vu_dist < u_dist then Inl ValueError else Inr s
        | None \<Rightarrow>
            if (case map_of (d_seen s) u of None \<Rightarrow> True | Some su \<Rightarrow> vu_dist < su)
            then (let s1 = s\<lparr>d_seen := AList.update u vu_dist (d_seen s),
                                 d_fringe := d_fringe s @ [(vu_dist, d_count s, u)],
                                 d_count := Suc (d_count s)\<rparr>
                  in case d_paths s of
                       None \<Rightarrow> Inr s1
                     | Some ps \<Rightarrow>
                         (case map_of ps v of
                            None \<Rightarrow> Inl KeyError
                          | Some pv \<Rightarrow> Inr (s1\<lparr>d_paths := Some (AList.update u (pv @ [u]) ps)\<rparr>)))
            else Inr s)"

fun relax :: "node \<Rightarrow> real \<Rightarrow> (node \<times> real) list \<Rightarrow> dstate \<Rightarrow> py_error + dstate" where
  "relax v dv [] s = Inr s"
| "relax v dv (e # es) s =
     (case relax_step v dv e s of Inl x \<Rightarrow> Inl x | Inr s1 \<Rightarrow> relax v dv es s1)"

function dijkstra_loop :: "graph \<Rightarrow> node \<Rightarrow> dstate \<Rightarrow> py_error + dstate" where
  "dijkstra_loop g target s =
     (case heappop (d_fringe s) of
        None \<Rightarrow> Inr s
      | Some ((d, c, v), rest) \<Rightarrow>
          if dict_has (d_dist s) v then dijkstra_loop g target (s\<lparr>d_fringe := rest\<rparr>)
          else if v = target then Inr (s\<lparr>d_fringe := rest, d_dist := AList.update v d (d_dist s)\<rparr>)
          else (case relax v d (adj_of g v) (s\<lparr>d_fringe := rest, d_dist := AList.update v d (d_dist s)\<rparr>) of
                  Inl e \<Rightarrow> Inl e
                | Inr s2 \<Rightarrow> dijkstra_loop g target s2))"
  by pat_completeness auto

definition fringe_nodes :: "(real \<times> nat \<times> node) list \<Rightarrow> node set" where
  "fringe_nodes h = (snd \<circ> snd) ` set h"

definition graph_nodes :: "graph \<Rightarrow> node set" where
  "graph_nodes g = (\<Union>(u, al) \<in> set (g_adj g). fst ` set al)"

definition open_nodes :: "graph \<Rightarrow> dstate \<Rightarrow> node set" where
  "open_nodes g s = (graph_nodes g \<union> fringe_nodes (d_fringe s)) - fst ` set (d_dist s)"

lemma finite_open: "finite (open_nodes g s)"
  by (auto simp: open_nodes_def graph_nodes_def fringe_nodes_def)

lemma heap_min_in: "heap_min m xs \<in> set (m # xs)"
  by (induction xs arbitrary: m) auto

lemma heappop_Some:
  assumes "heappop h = Some (m, rest)"
  shows "m \<in> set h" and "rest = remove1 m h"
proof -
  from assms obtain x xs where h: "h = x # xs" and m: "m = heap_min x xs" and r: "rest = remove1 m h"
    by (cases h) (auto simp: heappop_def Let_def)
  show "m \<in> set h" using heap_min_in[of x xs] h m by simp
  show "rest = remove1 m h" by (rule r)
qed

lemma fringe_nodes_remove1: "fringe_nodes (remove1 m h) \<subseteq> fringe_nodes h"
  unfolding fringe_nodes_def by (rule image_mono) (rule set_remove1_subset)

lemma relax_step_dist: "relax_step v dv e s = Inr s' \<Longrightarrow> d_dist s' = d_dist s"
  by (auto simp: relax_step_def Let_def split: prod.splits option.splits if_splits)

lemma relax_step_fringe:
  "relax_step v dv e s = Inr s' \<Longrightarrow>
     fringe_nodes (d_fringe s') \<subseteq> fringe_nodes (d_fringe s) \<union> {fst e}"
  by (auto simp: relax_step_def Let_def fringe_nodes_def split: prod.splits option.splits if_splits)

lemma relax_dist: "relax v dv es s = Inr s' \<Longrightarrow> d_dist s' = d_dist s"
proof (induction es arbitrary: s)
  case Nil
  then show ?case by simp
next
  case (Cons e es)
  then obtain s1 where 1: "relax_step v dv e s = Inr s1" and 2: "relax v dv es s1 = Inr s'"
    by (auto split: sum.splits)
  show ?case using Cons.IH[OF 2] relax_step_dist[OF 1] by simp
qed

lemma relax_fringe:
  "relax v dv es s = Inr s' \<Longrightarrow>
     fringe_nodes (d_fringe s') \<subseteq> fringe_nodes (d_fringe s) \<union> fst ` set es"
proof (induction es arbitrary: s)
  case Nil
  then show ?case by simp
next
  case (Cons e es)
  then obtain s1 where 1: "relax_step v dv e s = Inr s1" and 2: "relax v dv es s1 = Inr s'"
    by (auto split: sum.splits)
  show ?case using Cons.IH[OF 2] relax_step_fringe[OF 1] by auto
qed

lemma adj_of_nodes: "fst ` set (adj_of g v) \<subseteq> graph_nodes g"
proof (cases "map_of (g_adj g) v")
  case None
  then show ?thesis by (simp add: adj_of_def)
next
  case (Some al)
  then have "(v, al) \<in> set (g_adj g)" by (rule map_of_SomeD)
  then have "fst ` set al \<subseteq> graph_nodes g" unfolding graph_nodes_def by blast
  with Some show ?thesis by (simp add: adj_of_def)
qed

termination dijkstra_loop
proof (relation "measures [\<lambda>(g, t, s). card (open_nodes g s), \<lambda>(g, t, s). length (d_fringe s)]", goal_cases)
  case 1
  then show ?case by simp
next
  case (2 g target s x2 m rest d x2a c v)
  then have pop: "heappop (d_fringe s) = Some ((d, c, v), rest)" by simp
  note mem = heappop_Some(1)[OF pop] and rest = heappop_Some(2)[OF pop]
  have "length rest < length (d_fringe s)"
    using mem rest length_pos_if_in_set[OF mem] by (simp add: length_remove1)
  moreover have "open_nodes g (s\<lparr>d_fringe := rest\<rparr>) \<subseteq> open_nodes g s"
    using fringe_nodes_remove1[of "(d, c, v)" "d_fringe s"] rest by (auto simp: open_nodes_def)
  then have "card (open_nodes g (s\<lparr>d_fringe := rest\<rparr>)) \<le> card (open_nodes g s)"
    by (intro card_mono finite_open)
  ultimately show ?case by auto
next
  case (3 g target s x2 m rest d x2a c v s2)
  then have pop: "heappop (d_fringe s) = Some ((d, c, v), rest)" by simp
  note mem = heappop_Some(1)[OF pop] and rest = heappop_Some(2)[OF pop]
  from 3 have rl: "relax v d (adj_of g v) (s\<lparr>d_fringe := rest, d_dist := AList.update v d (d_dist s)\<rparr>) = Inr s2" by simp
  from 3 have nv: "v \<notin> fst ` set (d_dist s)" by (simp add: dict_has_def map_of_eq_None_iff)
  have d2: "d_dist s2 = AList.update v d (d_dist s)" using relax_dist[OF rl] by simp
  have f2: "fringe_nodes (d_fringe s2) \<subseteq> fringe_nodes (d_fringe s) \<union> graph_nodes g"
    using relax_fringe[OF rl] adj_of_nodes[of g v] fringe_nodes_remove1[of "(d, c, v)" "d_fringe s"] rest
    by auto
  have "v \<in> fringe_nodes (d_fringe s)" using mem unfolding fringe_nodes_def by force
  then have vin: "v \<in> open_nodes g s" using nv by (simp add: open_nodes_def)
  have "open_nodes g s2 \<subseteq> open_nodes g s - {v}"
    using f2 d2 by (auto simp: open_nodes_def AList.dom_update)
  then have "card (open_nodes g s2) \<le> card (open_nodes g s - {v})"
    by (intro card_mono) (auto simp: finite_open)
  also have "\<dots> < card (open_nodes g s)" using vin by (intro card_Diff1_less finite_open)
  finally show ?case by auto
qed


declare dijkstra_loop.simps [simp del]

definition dijkstra_multisource ::
  "graph \<Rightarrow> node \<Rightarrow> (node \<times> node list) list option \<Rightarrow> node \<Rightarrow> py_error + dstate" where
  "dijkstra_multisource g source ps target =
     dijkstra_loop g target
       \<lparr>d_dist = [], d_seen = [(source, 0)], d_fringe = [(0, 0, source)], d_count = 1,
        d_paths = ps\<rparr>"

definition single_source_dijkstra :: "graph \<Rightarrow> node \<Rightarrow> node \<Rightarrow> py_error + (real \<times> node list)" where
  "single_source_dijkstra g source target =
     (if \<not> has_node g source then Inl NodeNotFound
      else if target = source then Inr (0, [target])
      else case dijkstra_multisource g source (Some [(source, [source])]) target of
             Inl e \<Rightarrow> Inl e
           | Inr s \<Rightarrow>
               (case map_of (d_dist s) target of
                  None \<Rightarrow> Inl NetworkXNoPath
                | Some d \<Rightarrow>
                    (case d_paths s of
                       None \<Rightarrow> Inl NetworkXNoPath
                     | Some ps \<Rightarrow>
                         (case map_of ps target of
                            None \<Rightarrow> Inl NetworkXNoPath
                          | Some p \<Rightarrow> Inr (d, p)))))"

definition dijkstra_path :: "graph \<Rightarrow> node \<Rightarrow> node \<Rightarrow> py_error + node list" where
  "dijkstra_path g source target =
     (case single_source_dijkstra g source target of Inl e \<Rightarrow> Inl e | Inr (d, p) \<Rightarrow> Inr p)"

definition dijkstra_path_length :: "graph \<Rightarrow> node \<Rightarrow> node \<Rightarrow> py_error + real" where
  "dijkstra_path_length g source target =
     (if \<not> has_node g source then Inl NodeNotFound
      else if source = target then Inr 0
      else case dijkstra_multisource g source None target of
             Inl e \<Rightarrow> Inl e
           | Inr s \<Rightarrow>
               (case map_of (d_dist s) target of
                  None \<Rightarrow> Inl NetworkXNoPath
                | Some d \<Rightarrow> Inr d))"

subsection \<open>Rounding\<close>

text \<open>
  Python's \<open>round(x)\<close> rounds to the nearest integer, halves to the even one;
  \<open>round(x, 2)\<close> does the same at the second decimal (on the exact value here, since
  numbers are idealised as reals).
\<close>

definition py_round :: "real \<Rightarrow> int" where
  "py_round x =
     (let f = \<lfloor>x\<rfloor>; d = x - of_int f
      in if d < 1 / 2 then f else if 1 / 2 < d then f + 1 else if even f then f else f + 1)"

definition py_round2 :: "real \<Rightarrow> real" where
  "py_round2 x = of_int (py_round (x * 100)) / 100"

subsection \<open>Link costs\<close>




subsection \<open>Route computation\<close>

definition backup_route ::
  "graph \<Rightarrow> node \<Rightarrow> node \<Rightarrow> py_error + (node list option \<times> real option)" where
  "backup_route topology_copy src target =
     (case dijkstra_path topology_copy src target of
        Inl e \<Rightarrow> if e = NetworkXNoPath then Inr (None, None) else Inl e
      | Inr bp \<Rightarrow>
          (case dijkstra_path_length topology_copy src target of
             Inl e \<Rightarrow> if e = NetworkXNoPath then Inr (None, None) else Inl e
           | Inr bc \<Rightarrow> Inr (Some bp, Some bc)))"

definition route_to :: "graph \<Rightarrow> node \<Rightarrow> node \<Rightarrow> py_error + route option" where
  "route_to g src target =
     (case dijkstra_path g src target of
        Inl e \<Rightarrow> if e = NetworkXNoPath then Inr None else Inl e
      | Inr primary_path \<Rightarrow>
          (case dijkstra_path_length g src target of
             Inl e \<Rightarrow> if e = NetworkXNoPath then Inr None else Inl e
           | Inr primary_cost \<Rightarrow>
               (let path_edges = zip primary_path (tl primary_path);
                    topology_copy = remove_edges_from path_edges g
                in case backup_route topology_copy src target of
                     Inl e \<Rightarrow> Inl e
                   | Inr (bp, bc) \<Rightarrow>
                       (case primary_path of
                          a # nh # rest \<Rightarrow>
                            Inr (Some \<lparr>next_hop = nh,
                                       total_cost = py_round2 primary_cost,
                                       path = primary_path,
                                       backup_path = bp,
                                       backup_cost =
                                         (case bc of
                                            None \<Rightarrow> None
                                          | Some c \<Rightarrow> if c \<noteq> 0 then Some (py_round2 c) else None)\<rparr>)
                        | _ \<Rightarrow> Inl IndexError))))"

fun routes_loop ::
  "graph \<Rightarrow> node \<Rightarrow> node list \<Rightarrow> (node \<times> route) list \<Rightarrow> py_error + (node \<times> route) list" where
  "routes_loop g src [] tbl = Inr tbl"
| "routes_loop g src (target_node # ns) tbl =
     (if target_node = src then routes_loop g src ns tbl
      else case route_to g src target_node of
             Inl e \<Rightarrow> Inl e
           | Inr None \<Rightarrow> routes_loop g src ns tbl
           | Inr (Some rt) \<Rightarrow> routes_loop g src ns (AList.update target_node rt tbl))"

definition calculate_routes :: "router \<Rightarrow> py_error + router" where
  "calculate_routes r =
     (if \<not> has_node (topology r) (router_id r) then Inr r
      else case routes_loop (topology r) (router_id r) (map fst (g_node (topology r))) [] of
             Inl e \<Rightarrow> Inl e
           | Inr tbl \<Rightarrow> Inr (r\<lparr>routing_table := tbl\<rparr>))"

subsection \<open>Origination and sequences of receptions\<close>

text \<open>
  \<open>create_lsu\<close> advances the router's own sequence number, packages the sampled link
  costs (an argument here, one per neighbour in the base graph) and signs the payload.
  \<open>receive_all\<close> is a driver handing one router a sequence of advertisements, each at
  its own clock reading; an exception ends the run.
\<close>

definition create_lsu :: "env \<Rightarrow> router \<Rightarrow> (node \<times> real) list \<Rightarrow> py_error + (lsu \<times> router)" where
  "create_lsu E r links_data =
     (let r1 = r\<lparr>own_sequence_number := own_sequence_number r + 1\<rparr>;
          lsu_data = \<lparr>source_id = router_id r1, sequence_number = own_sequence_number r1,
                      links = links_data\<rparr>
      in case sign_message E lsu_data (router_id r1) of
           Inl e \<Rightarrow> Inl e
         | Inr sg \<Rightarrow> Inr (\<lparr>data = lsu_data, signature = sg\<rparr>, r1))"

fun receive_all :: "env \<Rightarrow> router \<Rightarrow> (real \<times> lsu) list \<Rightarrow> py_error + (outcome list \<times> router)" where
  "receive_all E r [] = Inr ([], r)"
| "receive_all E r ((t, l) # evs) =
     (case process_lsu E t r l of
        Inl e \<Rightarrow> Inl e
      | Inr (out, r1) \<Rightarrow>
          (case receive_all E r1 evs of
             Inl e \<Rightarrow> Inl e
           | Inr (outs, r2) \<Rightarrow> Inr (out # outs, r2)))"

text \<open>The clock readings of the receptions of a run that were accepted.\<close>

definition accepted_times :: "(real \<times> lsu) list \<Rightarrow> outcome list \<Rightarrow> real set" where
  "accepted_times evs outs = {fst (evs ! i) |i. i < length evs \<and> i < length outs \<and> outs ! i = Accepted}"

subsection \<open>Paths and their edges\<close>

text \<open>
  \<open>path_edges\<close> is \<open>zip(path, path[1:])\<close>. Two paths share an edge when an edge of one
  is an edge of the other in either direction, the graph being undirected. \<open>paths_ok\<close>
  is the invariant of the \<open>paths\<close> dictionary of the search, \<open>sym_at\<close> says that the
  adjacency of an edge is stored in both directions if it is stored in the reverse one.
\<close>

definition has_edge :: "graph \<Rightarrow> node \<Rightarrow> node \<Rightarrow> bool" where
  "has_edge g u v = dict_has (adj_of g u) v"

definition path_edges :: "node list \<Rightarrow> (node \<times> node) list" where
  "path_edges p = zip p (tl p)"

definition is_walk :: "graph \<Rightarrow> node list \<Rightarrow> bool" where
  "is_walk g p = (\<forall>(u, v) \<in> set (path_edges p). has_edge g u v)"

definition shares_edge :: "node list \<Rightarrow> node list \<Rightarrow> bool" where
  "shares_edge p q =
     (\<exists>(u, v) \<in> set (path_edges p). (u, v) \<in> set (path_edges q) \<or> (v, u) \<in> set (path_edges q))"

definition paths_ok :: "graph \<Rightarrow> (node \<times> node list) list \<Rightarrow> bool" where
  "paths_ok g ps = (\<forall>k p. map_of ps k = Some p \<longrightarrow> p \<noteq> [] \<and> last p = k \<and> is_walk g p)"

definition sym_at :: "graph \<Rightarrow> node \<times> node \<Rightarrow> bool" where
  "sym_at g e = (has_edge g (snd e) (fst e) \<longrightarrow> has_edge g (fst e) (snd e))"

subsection \<open>Well-formed graphs\<close>

text \<open>
  The invariant networkx keeps for an undirected graph: \<open>_adj\<close> and \<open>_node\<close> have the
  same keys, and the two adjacency entries of an edge carry the same attribute.
\<close>

definition graph_ok :: "graph \<Rightarrow> bool" where
  "graph_ok g = ((\<forall>n. dict_has (g_adj g) n = has_node g n)
               \<and> (\<forall>u v. edge_cost g u v = edge_cost g v u))"

text \<open>A small configuration used to run the model on concrete inputs.\<close>

definition sample_env :: env where
  "sample_env =
     \<lparr>PUBLIC_KEYS = [(''R0'', ''key0''), (''R1'', ''key1''), (''R2'', ''key2''), (''R3'', ''key3'')],
      py_str = (\<lambda>d. source_id d), py_hash = (\<lambda>s. int (length s))\<rparr>"

definition scenario_A_graph :: graph where
  "scenario_A_graph =
     \<lparr>g_node = [(''R1'', Some 1), (''R0'', None), (''R2'', Some 1)],
      g_adj = [(''R1'', [(''R0'', 1), (''R2'', 1)]), (''R0'', [(''R1'', 1)]),
               (''R2'', [(''R1'', 1)])]\<rparr>"

definition scenario_A_router :: "real \<Rightarrow> real \<Rightarrow> real \<Rightarrow> real \<Rightarrow> router" where
  "scenario_A_router a b t1 t2 =
     (Router_init ''R0'' a b)\<lparr>lsu_timestamps := (if t2 - t1 \<le> 1 then [t1] else []) @ [t2],
                               topology := scenario_A_graph\<rparr>"

definition zero_cost_table :: "(node \<times> route) list" where
  "zero_cost_table =
     [(''R1'', \<lparr>next_hop = ''R1'', total_cost = 0, path = [''R0'', ''R1''],
                backup_path = Some [''R0'', ''R2'', ''R3'', ''R1''], backup_cost = None\<rparr>),
      (''R3'', \<lparr>next_hop = ''R1'', total_cost = 0, path = [''R0'', ''R1'', ''R3''],
                backup_path = Some [''R0'', ''R2'', ''R3''], backup_cost = None\<rparr>),
      (''R2'', \<lparr>next_hop = ''R2'', total_cost = 0, path = [''R0'', ''R2''],
                backup_path = Some [''R0'', ''R1'', ''R3'', ''R2''], backup_cost = None\<rparr>)]"

definition zero_cost_graph :: graph where
  "zero_cost_graph =
     \<lparr>g_node = [(''R1'', Some 1), (''R0'', None), (''R3'', None), (''R2'', Some 1)],
      g_adj = [(''R1'', [(''R0'', 0), (''R3'', 0)]), (''R0'', [(''R1'', 0), (''R2'', 0)]),
               (''R3'', [(''R1'', 0), (''R2'', 0)]), (''R2'', [(''R0'', 0), (''R3'', 0)])]\<rparr>"

definition zero_cost_router :: router where
  "zero_cost_router = (Router_init ''R0'' 1 1)\<lparr>lsu_timestamps := [0, 0], topology := zero_cost_graph\<rparr>"

text \<open>Router \<open>R0\<close> after the advertisement of \<open>R1\<close> and after the one of \<open>R2\<close>.\<close>

definition replaced_router :: router where
  "replaced_router =
     (Router_init ''R0'' 1 1)\<lparr>lsu_timestamps := [0],
        topology := \<lparr>g_node = [(''R1'', Some 1), (''R0'', None), (''R2'', None)],
                     g_adj = [(''R1'', [(''R0'', 1), (''R2'', 5)]), (''R0'', [(''R1'', 1)]),
                              (''R2'', [(''R1'', 5)])]\<rparr>\<rparr>"

definition overwritten_router :: router where
  "overwritten_router =
     (Router_init ''R0'' 1 1)\<lparr>lsu_timestamps := [0, 0],
        topology := \<lparr>g_node = [(''R1'', Some 1), (''R0'', None), (''R2'', Some 1)],
                     g_adj = [(''R1'', [(''R0'', 1)]), (''R0'', [(''R1'', 1), (''R2'', 2)]),
                              (''R2'', [(''R0'', 2)])]\<rparr>\<rparr>"

lemmas graph_ops = dict_has_def install_links_def add_edge_def set_adj_def touch_node_def has_node_def
  add_node_def empty_graph_def remove_edges_from_def remove_edge_def del_adj_def edges_at_def
  adj_of_def

lemmas dijkstra_eval = dijkstra_path_def dijkstra_path_length_def single_source_dijkstra_def
  dijkstra_multisource_def dijkstra_loop.simps heappop_def relax_step_def dict_has_def

section \<open>Acceptance rules\<close>

text \<open>
  C3: when the window, after eviction, still holds at least \<open>lsu_rate_limit\<close> time stamps,
  \<open>process_lsu\<close> answers \<open>RateLimited\<close> for every advertisement, whatever its signature,
  source or sequence number, and neither the topology database nor the routing table
  changes (only the evicted time stamps are dropped).
\<close>

theorem rate_limited_first:
  assumes "lsu_rate_limit r \<le> length (evict now r)"
  shows "process_lsu E now r l = Inr (RateLimited, r\<lparr>lsu_timestamps := evict now r\<rparr>)
       \<and> topology (r\<lparr>lsu_timestamps := evict now r\<rparr>) = topology r
       \<and> routing_table (r\<lparr>lsu_timestamps := evict now r\<rparr>) = routing_table r
       \<and> \<not> returned RateLimited"
  using assms by (simp add: process_lsu_def Let_def returned_def)

text \<open>
  C2: with the rate limiter below its limit and a valid signature, an advertisement whose
  sequence number is at most the one stored for its source is answered \<open>Stale\<close>; the
  topology database and the routing table stay as they were.
\<close>

theorem stale_rejected:
  assumes "length (evict now r) < lsu_rate_limit r"
    and "verify_signature E (data l) (signature l) (source_id (data l)) = Inr True"
    and "map_of (g_node (topology r)) (source_id (data l)) = Some (Some s)"
    and "sequence_number (data l) \<le> s"
  shows "process_lsu E now r l = Inr (Stale, r\<lparr>lsu_timestamps := evict now r\<rparr>)
       \<and> topology (r\<lparr>lsu_timestamps := evict now r\<rparr>) = topology r
       \<and> routing_table (r\<lparr>lsu_timestamps := evict now r\<rparr>) = routing_table r
       \<and> \<not> returned Stale"
proof -
  have "has_node (topology r) (source_id (data l))"
    using assms(3) by (simp add: has_node_def dict_has_def)
  moreover have "stored_seq (topology r) (source_id (data l)) = s"
    using assms(3) by (simp add: stored_seq_def)
  ultimately show ?thesis
    using assms(1,2,4) by (simp add: process_lsu_def Let_def returned_def)
qed

text \<open>An instance: ten time stamps inside the window, and an advertisement of a source
  without key whose signature is arbitrary.\<close>

theorem rate_limited_first_witness:
  "lsu_rate_limit ((Router_init ''R0'' 1 1)\<lparr>lsu_timestamps := [0, 0, 0, 0, 0, 0, 0, 0, 0, 0]\<rparr>)
     \<le> length (evict (1 / 2) ((Router_init ''R0'' 1 1)\<lparr>lsu_timestamps := [0, 0, 0, 0, 0, 0, 0, 0, 0, 0]\<rparr>))
   \<and> process_lsu sample_env (1 / 2)
        ((Router_init ''R0'' 1 1)\<lparr>lsu_timestamps := [0, 0, 0, 0, 0, 0, 0, 0, 0, 0]\<rparr>)
        \<lparr>data = \<lparr>source_id = ''R9'', sequence_number = 7, links = [(''R0'', 3)]\<rparr>, signature = 0\<rparr>
     = Inr (RateLimited,
            (Router_init ''R0'' 1 1)\<lparr>lsu_timestamps := [0, 0, 0, 0, 0, 0, 0, 0, 0, 0]\<rparr>)"
proof -
  let ?r = "(Router_init ''R0'' 1 1)\<lparr>lsu_timestamps := [0, 0, 0, 0, 0, 0, 0, 0, 0, 0]\<rparr>"
  have h: "lsu_rate_limit ?r \<le> length (evict (1 / 2) ?r)"
    by (simp add: Router_init_def evict_def)
  have e: "evict (1 / 2) ?r = [0, 0, 0, 0, 0, 0, 0, 0, 0, 0]"
    by (simp add: Router_init_def evict_def)
  show ?thesis
    using h rate_limited_first [OF h, of sample_env
        "\<lparr>data = \<lparr>source_id = ''R9'', sequence_number = 7, links = [(''R0'', 3)]\<rparr>, signature = 0\<rparr>"]
    by (simp add: e)
qed

text \<open>An instance: \<open>R1\<close> is stored with sequence number 5 and advertises number 3.\<close>

theorem stale_rejected_witness:
  "length (evict 0 ((Router_init ''R0'' 1 1)\<lparr>topology := add_node ''R1'' 5 empty_graph\<rparr>))
     < lsu_rate_limit ((Router_init ''R0'' 1 1)\<lparr>topology := add_node ''R1'' 5 empty_graph\<rparr>)
   \<and> verify_signature sample_env \<lparr>source_id = ''R1'', sequence_number = 3, links = []\<rparr> 6 ''R1''
       = Inr True
   \<and> map_of (g_node (add_node ''R1'' 5 empty_graph)) ''R1'' = Some (Some 5)
   \<and> process_lsu sample_env 0
        ((Router_init ''R0'' 1 1)\<lparr>topology := add_node ''R1'' 5 empty_graph\<rparr>)
        \<lparr>data = \<lparr>source_id = ''R1'', sequence_number = 3, links = []\<rparr>, signature = 6\<rparr>
     = Inr (Stale, (Router_init ''R0'' 1 1)\<lparr>topology := add_node ''R1'' 5 empty_graph\<rparr>)"
proof -
  let ?r = "(Router_init ''R0'' 1 1)\<lparr>topology := add_node ''R1'' 5 empty_graph\<rparr>"
  let ?l = "\<lparr>data = \<lparr>source_id = ''R1'', sequence_number = 3, links = []\<rparr>, signature = 6\<rparr>"
  have e: "evict 0 ?r = []" by (simp add: Router_init_def evict_def)
  have h1: "length (evict 0 ?r) < lsu_rate_limit ?r" by (simp add: e) (simp add: Router_init_def)
  have h2: "verify_signature sample_env (data ?l) (signature ?l) (source_id (data ?l)) = Inr True"
    by (simp add: verify_signature_def sign_message_def sample_env_def)
  have h3: "map_of (g_node (topology ?r)) (source_id (data ?l)) = Some (Some 5)"
    by (simp add: graph_ops Let_def)
  have h4: "sequence_number (data ?l) \<le> 5" by simp
  have r: "?r\<lparr>lsu_timestamps := []\<rparr> = ?r" by (simp add: Router_init_def)
  show ?thesis
    using h1 h2 h3 stale_rejected [OF h1 h2 h3 h4]
    by (simp add: e r)
qed

section \<open>Route computation\<close>

text \<open>
  C10: a router whose own identifier is not a node of its topology database returns from
  \<open>calculate_routes\<close> at once: the whole router, and so its routing table, is unchanged.
\<close>

theorem calculate_routes_uninitialized:
  assumes "\<not> has_node (topology r) (router_id r)"
  shows "calculate_routes r = Inr r"
  using assms by (simp add: calculate_routes_def)

theorem calculate_routes_uninitialized_witness:
  "\<not> has_node (topology ((Router_init ''R0'' 1 1)\<lparr>routing_table :=
        [(''R1'', \<lparr>next_hop = ''R1'', total_cost = 1, path = [''R0'', ''R1''],
                   backup_path = None, backup_cost = None\<rparr>)]\<rparr>)) ''R0''
   \<and> calculate_routes ((Router_init ''R0'' 1 1)\<lparr>routing_table :=
        [(''R1'', \<lparr>next_hop = ''R1'', total_cost = 1, path = [''R0'', ''R1''],
                   backup_path = None, backup_cost = None\<rparr>)]\<rparr>)
     = Inr ((Router_init ''R0'' 1 1)\<lparr>routing_table :=
        [(''R1'', \<lparr>next_hop = ''R1'', total_cost = 1, path = [''R0'', ''R1''],
                   backup_path = None, backup_cost = None\<rparr>)]\<rparr>)"
proof -
  let ?r = "(Router_init ''R0'' 1 1)\<lparr>routing_table :=
        [(''R1'', \<lparr>next_hop = ''R1'', total_cost = 1, path = [''R0'', ''R1''],
                   backup_path = None, backup_cost = None\<rparr>)]\<rparr>"
  have h: "\<not> has_node (topology ?r) (router_id ?r)"
    by (simp add: Router_init_def has_node_def dict_has_def empty_graph_def)
  have i: "router_id ?r = ''R0''" by (simp add: Router_init_def)
  show ?thesis
    using h calculate_routes_uninitialized [OF h] by (simp add: i)
qed

lemma py_round2_numeral [simp]: "py_round2 0 = 0" "py_round2 1 = 1" "py_round2 2 = 2"
  by (simp_all add: py_round2_def py_round_def Let_def)

lemma scenario_A_first:
  "install_links ''R1'' [(''R0'', 1), (''R2'', 1)]
     (remove_edges_from (edges_at (add_node ''R1'' 1 empty_graph) ''R1'')
        (add_node ''R1'' 1 empty_graph))
   = \<lparr>g_node = [(''R1'', Some 1), (''R0'', None), (''R2'', None)],
      g_adj = [(''R1'', [(''R0'', 1), (''R2'', 1)]), (''R0'', [(''R1'', 1)]),
               (''R2'', [(''R1'', 1)])]\<rparr>"
  by (simp add: graph_ops Let_def)

lemma scenario_A_second:
  "install_links ''R2'' [(''R1'', 1)]
     (remove_edges_from
        (edges_at (add_node ''R2'' 1
           \<lparr>g_node = [(''R1'', Some 1), (''R0'', None), (''R2'', None)],
            g_adj = [(''R1'', [(''R0'', 1), (''R2'', 1)]), (''R0'', [(''R1'', 1)]),
                     (''R2'', [(''R1'', 1)])]\<rparr>) ''R2'')
        (add_node ''R2'' 1
           \<lparr>g_node = [(''R1'', Some 1), (''R0'', None), (''R2'', None)],
            g_adj = [(''R1'', [(''R0'', 1), (''R2'', 1)]), (''R0'', [(''R1'', 1)]),
                     (''R2'', [(''R1'', 1)])]\<rparr>))
   = scenario_A_graph"
  by (simp add: graph_ops Let_def scenario_A_graph_def)

lemma scenario_A_routes:
  "routes_loop scenario_A_graph ''R0'' [''R1'', ''R0'', ''R2''] [] =
     Inr [(''R1'', \<lparr>next_hop = ''R1'', total_cost = 1, path = [''R0'', ''R1''],
                   backup_path = None, backup_cost = None\<rparr>),
          (''R2'', \<lparr>next_hop = ''R1'', total_cost = 2, path = [''R0'', ''R1'', ''R2''],
                   backup_path = None, backup_cost = None\<rparr>)]"
  by (simp add: scenario_A_graph_def route_to_def backup_route_def dijkstra_eval graph_ops Let_def)

lemma scenario_A_receive:
  assumes c1: "create_lsu E (Router_init ''R1'' a b) [(''R0'', 1), (''R2'', 1)] = Inr (l1, r1)"
    and c2: "create_lsu E (Router_init ''R2'' a b) [(''R1'', 1)] = Inr (l2, r2)"
  shows "receive_all E (Router_init ''R0'' a b) [(t1, l1), (t2, l2)]
           = Inr ([Accepted, Accepted], scenario_A_router a b t1 t2)"
proof -
  let ?d1 = "\<lparr>source_id = ''R1'', sequence_number = 1, links = [(''R0'', 1), (''R2'', 1)]\<rparr>"
  let ?d2 = "\<lparr>source_id = ''R2'', sequence_number = 1, links = [(''R1'', 1)]\<rparr>"
  from c1 obtain k1 where k1: "map_of (PUBLIC_KEYS E) ''R1'' = Some k1"
    and l1: "l1 = \<lparr>data = ?d1, signature = py_hash E (py_str E ?d1 @ k1)\<rparr>"
    by (auto simp: create_lsu_def Router_init_def sign_message_def Let_def split: option.splits)
  from c2 obtain k2 where k2: "map_of (PUBLIC_KEYS E) ''R2'' = Some k2"
    and l2: "l2 = \<lparr>data = ?d2, signature = py_hash E (py_str E ?d2 @ k2)\<rparr>"
    by (auto simp: create_lsu_def Router_init_def sign_message_def Let_def split: option.splits)
  have v1: "verify_signature E (data l1) (signature l1) ''R1'' = Inr True"
    unfolding l1 using k1 by (simp add: verify_signature_def sign_message_def)
  have v2: "verify_signature E (data l2) (signature l2) ''R2'' = Inr True"
    unfolding l2 using k2 by (simp add: verify_signature_def sign_message_def)
  have d1: "source_id (data l1) = ''R1''" "sequence_number (data l1) = 1"
    "links (data l1) = [(''R0'', 1), (''R2'', 1)]"
    unfolding l1 by simp_all
  have d2: "source_id (data l2) = ''R2''" "sequence_number (data l2) = 1"
    "links (data l2) = [(''R1'', 1)]"
    unfolding l2 by simp_all
  let ?g1 = "\<lparr>g_node = [(''R1'', Some 1), (''R0'', None), (''R2'', None)],
      g_adj = [(''R1'', [(''R0'', 1), (''R2'', 1)]), (''R0'', [(''R1'', 1)]),
               (''R2'', [(''R1'', 1)])]\<rparr>"
  let ?r1 = "(Router_init ''R0'' a b)\<lparr>lsu_timestamps := [t1], topology := ?g1\<rparr>"
  have h1: "\<not> has_node empty_graph ''R1''"
    by (simp add: has_node_def dict_has_def empty_graph_def)
  have p1: "process_lsu E t1 (Router_init ''R0'' a b) l1 = Inr (Accepted, ?r1)"
    by (simp add: process_lsu_def Router_init_def evict_def Let_def d1 v1 scenario_A_first h1)
  have h2: "has_node ?g1 ''R2''" "stored_seq ?g1 ''R2'' = 0"
    by (simp_all add: has_node_def dict_has_def stored_seq_def)
  have e2: "evict t2 ?r1 = (if t2 - t1 \<le> 1 then [t1] else [])"
    by (simp add: evict_def Router_init_def)
  have p2: "process_lsu E t2 ?r1 l2 = Inr (Accepted, scenario_A_router a b t1 t2)"
    by (simp add: process_lsu_def Let_def d2 v2 scenario_A_second h2 e2)
       (simp add: Router_init_def scenario_A_router_def)
  show ?thesis by (simp add: p1 p2)
qed

lemma scenario_A_calculate:
  "calculate_routes (scenario_A_router a b t1 t2)
     = Inr ((scenario_A_router a b t1 t2)\<lparr>routing_table :=
         [(''R1'', \<lparr>next_hop = ''R1'', total_cost = 1, path = [''R0'', ''R1''],
                    backup_path = None, backup_cost = None\<rparr>),
          (''R2'', \<lparr>next_hop = ''R1'', total_cost = 2, path = [''R0'', ''R1'', ''R2''],
                    backup_path = None, backup_cost = None\<rparr>)]\<rparr>)"
proof -
  have hn: "has_node scenario_A_graph ''R0''"
    by (simp add: has_node_def dict_has_def scenario_A_graph_def)
  have nodes: "map fst (g_node scenario_A_graph) = [''R1'', ''R0'', ''R2'']"
    by (simp add: scenario_A_graph_def)
  show ?thesis
    by (simp add: calculate_routes_def scenario_A_router_def Router_init_def hn nodes
        scenario_A_routes del: routes_loop.simps)
qed

lemma sample_create_lsu:
  "create_lsu sample_env (Router_init ''R1'' 1 1) [(''R0'', 1), (''R2'', 1)]
     = Inr (\<lparr>data = \<lparr>source_id = ''R1'', sequence_number = 1,
                        links = [(''R0'', 1), (''R2'', 1)]\<rparr>, signature = 6\<rparr>,
            (Router_init ''R1'' 1 1)\<lparr>own_sequence_number := 1\<rparr>)"
  "create_lsu sample_env (Router_init ''R2'' 1 1) [(''R1'', 1)]
     = Inr (\<lparr>data = \<lparr>source_id = ''R2'', sequence_number = 1, links = [(''R1'', 1)]\<rparr>,
             signature = 6\<rparr>,
            (Router_init ''R2'' 1 1)\<lparr>own_sequence_number := 1\<rparr>)"
  by (simp_all add: create_lsu_def Router_init_def sign_message_def sample_env_def Let_def)

lemma zero_cost_receive:
  "receive_all sample_env (Router_init ''R0'' 1 1)
     [(0, \<lparr>data = \<lparr>source_id = ''R1'', sequence_number = 1,
                      links = [(''R0'', 0), (''R3'', 0)]\<rparr>, signature = 6\<rparr>),
      (0, \<lparr>data = \<lparr>source_id = ''R2'', sequence_number = 1,
                      links = [(''R0'', 0), (''R3'', 0)]\<rparr>, signature = 6\<rparr>)]
     = Inr ([Accepted, Accepted], zero_cost_router)"
proof -
  let ?l1 = "\<lparr>data = \<lparr>source_id = ''R1'', sequence_number = 1,
                      links = [(''R0'', 0), (''R3'', 0)]\<rparr>, signature = 6\<rparr>"
  let ?l2 = "\<lparr>data = \<lparr>source_id = ''R2'', sequence_number = 1,
                      links = [(''R0'', 0), (''R3'', 0)]\<rparr>, signature = 6\<rparr>"
  let ?g1 = "\<lparr>g_node = [(''R1'', Some 1), (''R0'', None), (''R3'', None)],
      g_adj = [(''R1'', [(''R0'', 0), (''R3'', 0)]), (''R0'', [(''R1'', 0)]),
               (''R3'', [(''R1'', 0)])]\<rparr>"
  let ?r1 = "(Router_init ''R0'' 1 1)\<lparr>lsu_timestamps := [0], topology := ?g1\<rparr>"
  have v: "verify_signature sample_env (data ?l1) 6 ''R1'' = Inr True"
    "verify_signature sample_env (data ?l2) 6 ''R2'' = Inr True"
    by (simp_all add: verify_signature_def sign_message_def sample_env_def)
  have g1: "install_links ''R1'' [(''R0'', 0), (''R3'', 0)]
     (remove_edges_from (edges_at (add_node ''R1'' 1 empty_graph) ''R1'')
        (add_node ''R1'' 1 empty_graph)) = ?g1"
    by (simp add: graph_ops Let_def)
  have g2: "install_links ''R2'' [(''R0'', 0), (''R3'', 0)]
     (remove_edges_from (edges_at (add_node ''R2'' 1 ?g1) ''R2'') (add_node ''R2'' 1 ?g1))
     = zero_cost_graph"
    by (simp add: graph_ops Let_def zero_cost_graph_def)
  have h: "\<not> has_node empty_graph ''R1''" "\<not> has_node ?g1 ''R2''"
    by (simp_all add: has_node_def dict_has_def empty_graph_def)
  have p1: "process_lsu sample_env 0 (Router_init ''R0'' 1 1) ?l1 = Inr (Accepted, ?r1)"
    using v(1) by (simp add: process_lsu_def Router_init_def evict_def Let_def g1 h)
  have p2: "process_lsu sample_env 0 ?r1 ?l2 = Inr (Accepted, zero_cost_router)"
    using v(2)
    by (simp add: process_lsu_def Router_init_def evict_def Let_def g2 h zero_cost_router_def)
  show ?thesis by (simp add: p1 p2)
qed

lemma zero_cost_calculate:
  "calculate_routes zero_cost_router = Inr (zero_cost_router\<lparr>routing_table := zero_cost_table\<rparr>)"
proof -
  have rl: "routes_loop zero_cost_graph ''R0'' [''R1'', ''R0'', ''R3'', ''R2''] []
              = Inr zero_cost_table"
    by (simp add: zero_cost_graph_def zero_cost_table_def route_to_def backup_route_def
        dijkstra_eval graph_ops Let_def)
  have hn: "has_node zero_cost_graph ''R0''"
    by (simp add: has_node_def dict_has_def zero_cost_graph_def)
  have nodes: "map fst (g_node zero_cost_graph) = [''R1'', ''R0'', ''R3'', ''R2'']"
    by (simp add: zero_cost_graph_def)
  show ?thesis
    by (simp add: calculate_routes_def zero_cost_router_def Router_init_def hn nodes rl
        del: routes_loop.simps)
qed

text \<open>
  C8: Scenario A. \<open>R1\<close> advertises its links to \<open>R0\<close> and \<open>R2\<close>, \<open>R2\<close> its link to
  \<open>R1\<close>, both of cost 1. Router \<open>R0\<close> accepts both advertisements, and its routing table
  then reaches \<open>R2\<close> by the path \<open>R0, R1, R2\<close> of cost 2 through next hop \<open>R1\<close>, without
  backup path or backup cost.
\<close>

theorem scenario_A:
  assumes c1: "create_lsu E (Router_init ''R1'' a b) [(''R0'', 1), (''R2'', 1)] = Inr (l1, r1)"
    and c2: "create_lsu E (Router_init ''R2'' a b) [(''R1'', 1)] = Inr (l2, r2)"
  shows "\<exists>r r'. receive_all E (Router_init ''R0'' a b) [(t1, l1), (t2, l2)]
                  = Inr ([Accepted, Accepted], r)
              \<and> calculate_routes r = Inr r'
              \<and> map_of (routing_table r') ''R2''
                  = Some \<lparr>next_hop = ''R1'', total_cost = 2, path = [''R0'', ''R1'', ''R2''],
                          backup_path = None, backup_cost = None\<rparr>"
  by (intro exI conjI)
     (rule scenario_A_receive [OF c1 c2], rule scenario_A_calculate, simp)

theorem scenario_A_witness:
  "create_lsu sample_env (Router_init ''R1'' 1 1) [(''R0'', 1), (''R2'', 1)]
     = Inr (\<lparr>data = \<lparr>source_id = ''R1'', sequence_number = 1,
                        links = [(''R0'', 1), (''R2'', 1)]\<rparr>, signature = 6\<rparr>,
            (Router_init ''R1'' 1 1)\<lparr>own_sequence_number := 1\<rparr>)
   \<and> create_lsu sample_env (Router_init ''R2'' 1 1) [(''R1'', 1)]
     = Inr (\<lparr>data = \<lparr>source_id = ''R2'', sequence_number = 1, links = [(''R1'', 1)]\<rparr>,
             signature = 6\<rparr>,
            (Router_init ''R2'' 1 1)\<lparr>own_sequence_number := 1\<rparr>)
   \<and> (\<exists>r r'. receive_all sample_env (Router_init ''R0'' 1 1)
                   [(0, \<lparr>data = \<lparr>source_id = ''R1'', sequence_number = 1,
                                    links = [(''R0'', 1), (''R2'', 1)]\<rparr>, signature = 6\<rparr>),
                    (0, \<lparr>data = \<lparr>source_id = ''R2'', sequence_number = 1,
                                    links = [(''R1'', 1)]\<rparr>, signature = 6\<rparr>)]
                  = Inr ([Accepted, Accepted], r)
              \<and> calculate_routes r = Inr r'
              \<and> map_of (routing_table r') ''R2''
                  = Some \<lparr>next_hop = ''R1'', total_cost = 2, path = [''R0'', ''R1'', ''R2''],
                          backup_path = None, backup_cost = None\<rparr>)"
  using sample_create_lsu scenario_A [OF sample_create_lsu, of 0 0] by simp

text \<open>
  C9: a backup path whose total cost is zero. \<open>R1\<close> and \<open>R2\<close> each advertise links of
  cost 0 to \<open>R0\<close> and \<open>R3\<close>; \<open>R0\<close> accepts both. Every entry of the computed routing
  table then has a backup path, and none has a backup cost: the entry is built with
  \<open>round(backup_cost, 2) if backup_cost else None\<close>, and a cost of zero is false.
\<close>

theorem zero_cost_backup_without_cost:
  "receive_all sample_env (Router_init ''R0'' 1 1)
     [(0, \<lparr>data = \<lparr>source_id = ''R1'', sequence_number = 1,
                      links = [(''R0'', 0), (''R3'', 0)]\<rparr>, signature = 6\<rparr>),
      (0, \<lparr>data = \<lparr>source_id = ''R2'', sequence_number = 1,
                      links = [(''R0'', 0), (''R3'', 0)]\<rparr>, signature = 6\<rparr>)]
     = Inr ([Accepted, Accepted], zero_cost_router)
   \<and> calculate_routes zero_cost_router
     = Inr (zero_cost_router\<lparr>routing_table :=
         [(''R1'', \<lparr>next_hop = ''R1'', total_cost = 0, path = [''R0'', ''R1''],
                    backup_path = Some [''R0'', ''R2'', ''R3'', ''R1''], backup_cost = None\<rparr>),
          (''R3'', \<lparr>next_hop = ''R1'', total_cost = 0, path = [''R0'', ''R1'', ''R3''],
                    backup_path = Some [''R0'', ''R2'', ''R3''], backup_cost = None\<rparr>),
          (''R2'', \<lparr>next_hop = ''R2'', total_cost = 0, path = [''R0'', ''R2''],
                    backup_path = Some [''R0'', ''R1'', ''R3'', ''R2''], backup_cost = None\<rparr>)]\<rparr>)"
  using zero_cost_receive zero_cost_calculate by (simp add: zero_cost_table_def)

section \<open>Link costs\<close>








section \<open>The rate limiter over a run\<close>

lemma process_lsu_timestamps:
  assumes "process_lsu E t r l = Inr (out, r1)"
  shows "lsu_rate_limit r1 = lsu_rate_limit r" and "lsu_window r1 = lsu_window r"
    and "out = Accepted \<Longrightarrow> lsu_timestamps r1 = evict t r @ [t] \<and> length (evict t r) < lsu_rate_limit r"
    and "out \<noteq> Accepted \<Longrightarrow> lsu_timestamps r1 = evict t r"
  using assms
  by (auto simp: process_lsu_def Let_def split: if_splits sum.splits)

lemma length_evict: "length (evict t r) \<le> length (lsu_timestamps r)"
  by (simp add: evict_def)

lemma set_evict: "set (evict t r) \<subseteq> set (lsu_timestamps r)"
  by (auto simp: evict_def)

lemma accepted_times_Cons:
  "accepted_times (ev # evs) (out # outs) =
     (if out = Accepted then {fst ev} else {}) \<union> accepted_times evs outs"
proof -
  have "\<And>x. x \<in> accepted_times (ev # evs) (out # outs) \<longleftrightarrow>
          x \<in> (if out = Accepted then {fst ev} else {}) \<union> accepted_times evs outs"
  proof -
    fix x
    show "x \<in> accepted_times (ev # evs) (out # outs) \<longleftrightarrow>
          x \<in> (if out = Accepted then {fst ev} else {}) \<union> accepted_times evs outs"
    proof
      assume "x \<in> accepted_times (ev # evs) (out # outs)"
      then obtain i where i: "i < Suc (length evs)" "i < Suc (length outs)"
        "(out # outs) ! i = Accepted" "x = fst ((ev # evs) ! i)"
        by (auto simp: accepted_times_def)
      show "x \<in> (if out = Accepted then {fst ev} else {}) \<union> accepted_times evs outs"
      proof (cases i)
        case 0
        with i show ?thesis by simp
      next
        case (Suc j)
        with i have "j < length evs \<and> j < length outs \<and> outs ! j = Accepted \<and> x = fst (evs ! j)"
          by simp
        then have "x \<in> accepted_times evs outs" unfolding accepted_times_def by blast
        then show ?thesis by simp
      qed
    next
      assume "x \<in> (if out = Accepted then {fst ev} else {}) \<union> accepted_times evs outs"
      then consider "out = Accepted" "x = fst ev" | "x \<in> accepted_times evs outs"
        by (auto split: if_splits)
      then show "x \<in> accepted_times (ev # evs) (out # outs)"
      proof cases
        case 1
        then have "0 < length (ev # evs) \<and> 0 < length (out # outs) \<and> (out # outs) ! 0 = Accepted
                   \<and> x = fst ((ev # evs) ! 0)" by simp
        then show ?thesis unfolding accepted_times_def by blast
      next
        case 2
        then obtain j where "j < length evs" "j < length outs" "outs ! j = Accepted" "x = fst (evs ! j)"
          by (auto simp: accepted_times_def)
        then have "Suc j < length (ev # evs) \<and> Suc j < length (out # outs)
                   \<and> (out # outs) ! Suc j = Accepted \<and> x = fst ((ev # evs) ! Suc j)" by simp
        then show ?thesis unfolding accepted_times_def by blast
      qed
    qed
  qed
  then show ?thesis by blast
qed

lemma receive_all_window:
  assumes "receive_all E r evs = Inr (outs, r')"
    and "length (lsu_timestamps r) \<le> lsu_rate_limit r"
  shows "lsu_rate_limit r' = lsu_rate_limit r \<and> lsu_window r' = lsu_window r
       \<and> length outs = length evs
       \<and> length (lsu_timestamps r') \<le> lsu_rate_limit r
       \<and> set (lsu_timestamps r') \<subseteq> set (lsu_timestamps r) \<union> accepted_times evs outs"
  using assms
proof (induction evs arbitrary: r outs)
  case Nil
  then show ?case by (simp add: accepted_times_def)
next
  case (Cons ev evs)
  obtain t l where ev: "ev = (t, l)" by (cases ev)
  from Cons.prems(1) ev obtain out r1 outs1 where
    p: "process_lsu E t r l = Inr (out, r1)" and
    rest: "receive_all E r1 evs = Inr (outs1, r')" and
    outs: "outs = out # outs1"
    by (auto split: sum.splits prod.splits)
  note ts = process_lsu_timestamps[OF p]
  have len1: "length (lsu_timestamps r1) \<le> lsu_rate_limit r1"
  proof (cases "out = Accepted")
    case True
    with ts show ?thesis by simp
  next
    case False
    with ts length_evict[of t r] Cons.prems(2) show ?thesis by simp
  qed
  have sub1: "set (lsu_timestamps r1) \<subseteq> set (lsu_timestamps r) \<union> (if out = Accepted then {t} else {})"
    using ts(3,4) set_evict[of t r] by (cases "out = Accepted") auto
  from Cons.IH[OF rest len1] ts(1,2) sub1 show ?case
    unfolding outs ev accepted_times_Cons by auto
qed

text \<open>
  C5: over any sequence of receptions by a router that starts with at most
  \<open>lsu_rate_limit\<close> stored time stamps (a new router has none), the number of stored time
  stamps never exceeds the limit, so no interval of the window's duration holds more of
  them; every stored time stamp is one that was there before or the clock reading of a
  reception that was accepted; and a reception that finds the limit reached after eviction
  is refused.
\<close>

theorem stored_timestamps_bounded:
  assumes "receive_all E r evs = Inr (outs, r')"
    and "length (lsu_timestamps r) \<le> lsu_rate_limit r"
  shows "length (lsu_timestamps r') \<le> lsu_rate_limit r'
       \<and> (\<forall>a. length (filter (\<lambda>t. a \<le> t \<and> t \<le> a + lsu_window r') (lsu_timestamps r'))
                 \<le> lsu_rate_limit r')
       \<and> set (lsu_timestamps r') \<subseteq> set (lsu_timestamps r) \<union> accepted_times evs outs
       \<and> (\<forall>t l. lsu_rate_limit r' \<le> length (evict t r') \<longrightarrow>
                  process_lsu E t r' l = Inr (RateLimited, r'\<lparr>lsu_timestamps := evict t r'\<rparr>))"
proof -
  note w = receive_all_window[OF assms]
  have rl: "\<forall>t l. lsu_rate_limit r' \<le> length (evict t r') \<longrightarrow>
                  process_lsu E t r' l = Inr (RateLimited, r'\<lparr>lsu_timestamps := evict t r'\<rparr>)"
    by (simp add: process_lsu_def Let_def)
  have len: "length (lsu_timestamps r') \<le> lsu_rate_limit r'" using w by simp
  have "length (filter (\<lambda>t. a \<le> t \<and> t \<le> a + lsu_window r') (lsu_timestamps r'))
          \<le> lsu_rate_limit r'" for a
    using length_filter_le[of "\<lambda>t. a \<le> t \<and> t \<le> a + lsu_window r'" "lsu_timestamps r'"] len
    by (rule order_trans)
  with len w rl show ?thesis by simp
qed

theorem stored_timestamps_bounded_witness:
  "receive_all sample_env (Router_init ''R0'' 1 1)
     [(0, \<lparr>data = \<lparr>source_id = ''R1'', sequence_number = 1,
                      links = [(''R0'', 0), (''R3'', 0)]\<rparr>, signature = 6\<rparr>),
      (0, \<lparr>data = \<lparr>source_id = ''R2'', sequence_number = 1,
                      links = [(''R0'', 0), (''R3'', 0)]\<rparr>, signature = 6\<rparr>)]
     = Inr ([Accepted, Accepted], zero_cost_router)
   \<and> length (lsu_timestamps (Router_init ''R0'' 1 1)) \<le> lsu_rate_limit (Router_init ''R0'' 1 1)
   \<and> length (lsu_timestamps zero_cost_router) \<le> lsu_rate_limit zero_cost_router"
proof -
  have h: "length (lsu_timestamps (Router_init ''R0'' 1 1)) \<le> lsu_rate_limit (Router_init ''R0'' 1 1)"
    by (simp add: Router_init_def)
  show ?thesis
    using zero_cost_receive h stored_timestamps_bounded [OF zero_cost_receive h] by simp
qed

section \<open>Determinism of the route computation\<close>



section \<open>Disjointness of the backup path\<close>

lemma dict_has_iff: "dict_has d k \<longleftrightarrow> k \<in> fst ` set d"
  by (simp add: dict_has_def map_of_eq_None_iff)

lemma path_edges_snoc: "p \<noteq> [] \<Longrightarrow> path_edges (p @ [u]) = path_edges p @ [(last p, u)]"
proof (induction p)
  case Nil
  then show ?case by simp
next
  case (Cons a p)
  show ?case
  proof (cases p)
    case Nil
    then show ?thesis by (simp add: path_edges_def)
  next
    case (Cons b q)
    with Cons.IH show ?thesis by (simp add: path_edges_def)
  qed
qed

lemma relax_step_paths:
  assumes "relax_step v dv e s = Inr s'" and "d_paths s = Some ps" and "paths_ok g ps"
    and "has_edge g v (fst e)"
  shows "\<exists>ps'. d_paths s' = Some ps' \<and> paths_ok g ps'"
proof -
  obtain u cost where e: "e = (u, cost)" by (cases e)
  show ?thesis
  proof (cases "d_paths s' = Some ps")
    case True
    with assms(3) show ?thesis by blast
  next
    case False
    with assms(1,2) e obtain pv where pv: "map_of ps v = Some pv"
      and s': "d_paths s' = Some (AList.update u (pv @ [u]) ps)"
      by (auto simp: relax_step_def Let_def split: option.splits if_splits)
    from assms(3) pv have okv: "pv \<noteq> []" "last pv = v" "is_walk g pv"
      by (auto simp: paths_ok_def)
    have "is_walk g (pv @ [u])"
      using okv assms(4) e by (auto simp: is_walk_def path_edges_snoc)
    with assms(3) have "paths_ok g (AList.update u (pv @ [u]) ps)"
      by (auto simp: paths_ok_def update_conv')
    with s' show ?thesis by blast
  qed
qed

lemma relax_paths:
  assumes "relax v dv es s = Inr s'" and "d_paths s = Some ps" and "paths_ok g ps"
    and "\<forall>e \<in> set es. has_edge g v (fst e)"
  shows "\<exists>ps'. d_paths s' = Some ps' \<and> paths_ok g ps'"
  using assms
proof (induction es arbitrary: s ps)
  case Nil
  then show ?case by simp
next
  case (Cons e es)
  from Cons.prems(1) obtain s1 where 1: "relax_step v dv e s = Inr s1"
    and 2: "relax v dv es s1 = Inr s'"
    by (auto split: sum.splits)
  from relax_step_paths[OF 1 Cons.prems(2,3)] Cons.prems(4)
  obtain ps1 where "d_paths s1 = Some ps1" "paths_ok g ps1" by auto
  with Cons.IH[OF 2] Cons.prems(4) show ?case by simp
qed

lemma adj_of_has_edge: "\<forall>e \<in> set (adj_of g v). has_edge g v (fst e)"
  by (auto simp: has_edge_def dict_has_iff)

lemma dijkstra_loop_paths:
  "dijkstra_loop g target s = Inr s' \<Longrightarrow> d_paths s = Some ps \<Longrightarrow> paths_ok g ps \<Longrightarrow>
     \<exists>ps'. d_paths s' = Some ps' \<and> paths_ok g ps'"
proof (induction g target s arbitrary: ps rule: dijkstra_loop.induct)
  case (1 g target s)
  show ?case
  proof (cases "heappop (d_fringe s)")
    case None
    with "1.prems" show ?thesis by (simp add: dijkstra_loop.simps)
  next
    case (Some a)
    obtain d c v rest where a: "a = ((d, c, v), rest)" by (cases a) auto
    note pop = Some[unfolded a]
    show ?thesis
    proof (cases "dict_has (d_dist s) v")
      case True
      with pop "1.prems"(1) have run: "dijkstra_loop g target (s\<lparr>d_fringe := rest\<rparr>) = Inr s'"
        by (simp add: dijkstra_loop.simps[of g target s])
      show ?thesis
        using "1.IH"(1)[OF pop refl refl refl True run, of ps] "1.prems"(2,3) by simp
    next
      case False
      let ?s1 = "s\<lparr>d_fringe := rest, d_dist := AList.update v d (d_dist s)\<rparr>"
      show ?thesis
      proof (cases "v = target")
        case True
        with False pop "1.prems"(1) have "s' = ?s1"
          by (simp add: dijkstra_loop.simps[of g target s])
        with "1.prems"(2,3) show ?thesis by simp
      next
        case nt: False
        with False pop "1.prems"(1) obtain s2 where
          rl: "relax v d (adj_of g v) ?s1 = Inr s2" and run: "dijkstra_loop g target s2 = Inr s'"
          by (auto simp: dijkstra_loop.simps[of g target s] split: sum.splits)
        from relax_paths[OF rl _ "1.prems"(3) adj_of_has_edge] "1.prems"(2)
        obtain ps2 where ps2: "d_paths s2 = Some ps2" "paths_ok g ps2" by auto
        show ?thesis
          using "1.IH"(2)[OF pop refl refl refl False nt rl run ps2] .
      qed
    qed
  qed
qed

lemma single_source_dijkstra_walk:
  assumes "single_source_dijkstra g source target = Inr (d, p)"
  shows "is_walk g p"
proof (cases "target = source")
  case True
  with assms have "p = [target]" by (auto simp: single_source_dijkstra_def split: if_splits)
  then show ?thesis by (simp add: is_walk_def path_edges_def)
next
  case False
  with assms obtain s ps where run: "dijkstra_multisource g source (Some [(source, [source])]) target = Inr s"
    and ps: "d_paths s = Some ps" and p: "map_of ps target = Some p"
    by (auto simp: single_source_dijkstra_def split: if_splits sum.splits option.splits)
  have ok0: "paths_ok g [(source, [source])]"
    by (auto simp: paths_ok_def is_walk_def path_edges_def split: if_splits)
  from dijkstra_loop_paths[OF run[unfolded dijkstra_multisource_def] _ ok0] ps
  have "paths_ok g ps" by simp
  with p show ?thesis by (simp add: paths_ok_def)
qed

lemma dijkstra_path_walk: "dijkstra_path g source target = Inr p \<Longrightarrow> is_walk g p"
  by (auto simp: dijkstra_path_def split: sum.splits dest: single_source_dijkstra_walk)

lemma adj_of_del_adj:
  "adj_of (del_adj u v g) a = (if a = u then AList.delete v (adj_of g u) else adj_of g a)"
  by (simp add: del_adj_def adj_of_def update_conv')

lemma dict_has_delete: "dict_has (AList.delete v al) b \<longleftrightarrow> b \<noteq> v \<and> dict_has al b"
  by (auto simp: dict_has_def delete_conv')

lemma has_edge_del_adj:
  "has_edge (del_adj u v g) a b \<longleftrightarrow> has_edge g a b \<and> \<not> (a = u \<and> b = v)"
  by (auto simp: has_edge_def adj_of_del_adj dict_has_delete)

lemma has_edge_in_adj: "has_edge g u v \<Longrightarrow> dict_has (g_adj g) u"
  by (auto simp: has_edge_def adj_of_def dict_has_def split: option.splits)

lemma has_edge_remove_edge:
  "has_edge (remove_edge (u, v) g) a b \<longleftrightarrow>
     has_edge g a b \<and> \<not> (has_edge g u v \<and> ((a = u \<and> b = v) \<or> (a = v \<and> b = u)))"
proof (cases "has_edge g u v")
  case True
  then have c: "dict_has (g_adj g) u \<and> dict_has (adj_of g u) v"
    using has_edge_in_adj by (simp add: has_edge_def)
  show ?thesis
    using True c by (auto simp: remove_edge_def Let_def has_edge_del_adj)
next
  case False
  then have "remove_edge (u, v) g = g" by (simp add: remove_edge_def has_edge_def)
  with False show ?thesis by simp
qed

lemma remove_edge_sym_at: "sym_at g e' \<Longrightarrow> sym_at (remove_edge e g) e'"
  by (cases e; cases e') (auto simp: sym_at_def has_edge_remove_edge)

lemma remove_edge_absent:
  "sym_at g (u, v) \<Longrightarrow>
     \<not> has_edge (remove_edge (u, v) g) u v \<and> \<not> has_edge (remove_edge (u, v) g) v u"
  by (auto simp: sym_at_def has_edge_remove_edge)

lemma remove_edge_mono: "has_edge (remove_edge e g) a b \<Longrightarrow> has_edge g a b"
  by (cases e) (simp add: has_edge_remove_edge)

lemma fold_remove_edge_mono: "has_edge (fold remove_edge es g) a b \<Longrightarrow> has_edge g a b"
  by (induction es arbitrary: g) (auto dest: remove_edge_mono)

lemma remove_edges_from_absent:
  assumes "\<forall>e \<in> set es. sym_at g e" and "(u, v) \<in> set es"
  shows "\<not> has_edge (remove_edges_from es g) u v \<and> \<not> has_edge (remove_edges_from es g) v u"
  using assms unfolding remove_edges_from_def
proof (induction es arbitrary: g)
  case Nil
  then show ?case by simp
next
  case (Cons e es)
  have sym': "\<forall>e' \<in> set es. sym_at (remove_edge e g) e'"
    using Cons.prems(1) by (simp add: remove_edge_sym_at)
  show ?case
  proof (cases "(u, v) \<in> set es")
    case True
    from Cons.IH[OF sym' True] show ?thesis by simp
  next
    case False
    with Cons.prems(2) have e: "e = (u, v)" by simp
    from Cons.prems(1) e have "sym_at g (u, v)" by simp
    from remove_edge_absent[OF this] e
    have "\<not> has_edge (remove_edge e g) u v \<and> \<not> has_edge (remove_edge e g) v u" by simp
    then show ?thesis using fold_remove_edge_mono[of es "remove_edge e g"] by auto
  qed
qed

lemma route_to_disjoint:
  assumes "route_to g src target = Inr (Some e)" and "backup_path e = Some bp"
  shows "\<not> shares_edge bp (path e)"
proof -
  from assms obtain pp where pp: "dijkstra_path g src target = Inr pp" and pe: "path e = pp"
    and bp: "dijkstra_path (remove_edges_from (path_edges pp) g) src target = Inr bp"
    by (auto simp: route_to_def backup_route_def Let_def path_edges_def
             split: sum.splits if_splits prod.splits list.splits)
  let ?g' = "remove_edges_from (path_edges pp) g"
  have wp: "is_walk g pp" using pp by (rule dijkstra_path_walk)
  have wb: "is_walk ?g' bp" using bp by (rule dijkstra_path_walk)
  have sym: "\<forall>e \<in> set (path_edges pp). sym_at g e"
    using wp by (auto simp: is_walk_def sym_at_def)
  show ?thesis
  proof
    assume "shares_edge bp (path e)"
    then obtain u v where uv: "(u, v) \<in> set (path_edges bp)"
      and sh: "(u, v) \<in> set (path_edges pp) \<or> (v, u) \<in> set (path_edges pp)"
      unfolding shares_edge_def pe by blast
    from wb uv have he: "has_edge ?g' u v" by (auto simp: is_walk_def)
    from sh show False
    proof
      assume "(u, v) \<in> set (path_edges pp)"
      from remove_edges_from_absent[OF sym this] he show False by simp
    next
      assume "(v, u) \<in> set (path_edges pp)"
      from remove_edges_from_absent[OF sym this] he show False by simp
    qed
  qed
qed

lemma routes_loop_entries:
  assumes "routes_loop g src ns tbl = Inr tbl'" and "map_of tbl' dst = Some e"
  shows "map_of tbl dst = Some e \<or> route_to g src dst = Inr (Some e)"
  using assms
proof (induction ns arbitrary: tbl)
  case Nil
  then show ?case by simp
next
  case (Cons n ns)
  show ?case
  proof (cases "n = src")
    case True
    with Cons show ?thesis by simp
  next
    case False
    show ?thesis
    proof (cases "route_to g src n")
      case (Inl x)
      with False Cons.prems show ?thesis by simp
    next
      case (Inr ro)
      show ?thesis
      proof (cases ro)
        case None
        with Inr False Cons show ?thesis by simp
      next
        case (Some rt)
        with Inr False Cons.prems have "routes_loop g src ns (AList.update n rt tbl) = Inr tbl'"
          by simp
        from Cons.IH[OF this Cons.prems(2)] Inr Some show ?thesis
          by (auto simp: update_conv' split: if_splits)
      qed
    qed
  qed
qed

text \<open>
  C4: in every entry that \<open>calculate_routes\<close> stores, a backup path that is present has
  no edge in common with the primary path of the entry, in either direction: it is a path of
  the copy of the topology from which the edges of the primary path were removed.
\<close>

theorem backup_disjoint:
  assumes "calculate_routes r = Inr r'"
    and "has_node (topology r) (router_id r)"
    and "map_of (routing_table r') dst = Some e"
    and "backup_path e = Some bp"
  shows "\<not> shares_edge bp (path e)"
proof -
  from assms(1,2) obtain tbl where
    tbl: "routes_loop (topology r) (router_id r) (map fst (g_node (topology r))) [] = Inr tbl"
    and r': "r' = r\<lparr>routing_table := tbl\<rparr>"
    by (auto simp: calculate_routes_def split: sum.splits)
  from assms(3) r' have "map_of tbl dst = Some e" by simp
  from routes_loop_entries[OF tbl this]
  have "route_to (topology r) (router_id r) dst = Inr (Some e)" by simp
  then show ?thesis using assms(4) by (rule route_to_disjoint)
qed

theorem backup_disjoint_witness:
  "calculate_routes zero_cost_router = Inr (zero_cost_router\<lparr>routing_table := zero_cost_table\<rparr>)
   \<and> has_node (topology zero_cost_router) (router_id zero_cost_router)
   \<and> map_of zero_cost_table ''R3''
       = Some \<lparr>next_hop = ''R1'', total_cost = 0, path = [''R0'', ''R1'', ''R3''],
                backup_path = Some [''R0'', ''R2'', ''R3''], backup_cost = None\<rparr>
   \<and> \<not> shares_edge [''R0'', ''R2'', ''R3''] [''R0'', ''R1'', ''R3'']"
proof -
  let ?e = "\<lparr>next_hop = ''R1'', total_cost = 0, path = [''R0'', ''R1'', ''R3''],
                backup_path = Some [''R0'', ''R2'', ''R3''], backup_cost = None\<rparr>"
  have h: "has_node (topology zero_cost_router) (router_id zero_cost_router)"
    by (simp add: zero_cost_router_def Router_init_def zero_cost_graph_def has_node_def dict_has_def)
  have m: "map_of (routing_table (zero_cost_router\<lparr>routing_table := zero_cost_table\<rparr>)) ''R3''
             = Some ?e"
    by (simp add: zero_cost_table_def)
  have b: "backup_path ?e = Some [''R0'', ''R2'', ''R3'']" by simp
  show ?thesis
    using zero_cost_calculate h m backup_disjoint [OF zero_cost_calculate h m b] by simp
qed


section \<open>Replacement of a source's edges\<close>

lemma has_edge_cost: "has_edge g u v \<longleftrightarrow> edge_cost g u v \<noteq> None"
  by (simp add: has_edge_def dict_has_def edge_cost_def)

lemma dict_has_update: "dict_has (AList.update k v d) a = (a = k \<or> dict_has d a)"
  by (simp add: dict_has_def update_conv')

lemma adj_of_set_adj:
  "adj_of (set_adj u v c g) a = (if a = u then AList.update v c (adj_of g u) else adj_of g a)"
  by (simp add: set_adj_def adj_of_def update_conv')

lemma edge_cost_set_adj:
  "edge_cost (set_adj u v c g) a b = (if a = u \<and> b = v then Some c else edge_cost g a b)"
  by (simp add: edge_cost_def adj_of_set_adj update_conv')

lemma edge_cost_del_adj:
  "edge_cost (del_adj u v g) a b = (if a = u \<and> b = v then None else edge_cost g a b)"
  by (simp add: edge_cost_def adj_of_del_adj delete_conv')

lemma keys_set_adj:
  "dict_has (g_adj (set_adj u v c g)) a = (a = u \<or> dict_has (g_adj g) a)"
  "has_node (set_adj u v c g) a = has_node g a"
  by (simp_all add: set_adj_def dict_has_def has_node_def update_conv')

lemma keys_del_adj:
  "dict_has (g_adj (del_adj u v g)) a = (a = u \<or> dict_has (g_adj g) a)"
  "has_node (del_adj u v g) a = has_node g a"
  by (simp_all add: del_adj_def dict_has_def has_node_def update_conv')

lemma keys_touch_node:
  "has_node (touch_node n g) a = (a = n \<or> has_node g a)"
  "dict_has (g_adj (touch_node n g)) a = (dict_has (g_adj g) a \<or> (a = n \<and> \<not> has_node g n))"
  by (auto simp: touch_node_def dict_has_def has_node_def update_conv')

lemma adj_of_touch_node:
  assumes "\<forall>n. dict_has (g_adj g) n = has_node g n"
  shows "adj_of (touch_node n g) a = adj_of g a"
proof (cases "has_node g n")
  case True
  then show ?thesis by (simp add: touch_node_def)
next
  case False
  with assms have "\<not> dict_has (g_adj g) n" by simp
  then have "map_of (g_adj g) n = None" by (simp add: dict_has_def)
  with False show ?thesis by (simp add: touch_node_def adj_of_def update_conv')
qed

lemma edge_cost_touch_node:
  "\<forall>n. dict_has (g_adj g) n = has_node g n \<Longrightarrow> edge_cost (touch_node n g) a b = edge_cost g a b"
  by (simp add: edge_cost_def adj_of_touch_node)

lemma graph_ok_touch_node:
  assumes "graph_ok g"
  shows "graph_ok (touch_node n g)"
proof -
  have k: "\<forall>n. dict_has (g_adj g) n = has_node g n" using assms by (simp add: graph_ok_def)
  have s: "edge_cost g u v = edge_cost g v u" for u v using assms by (simp add: graph_ok_def)
  have "dict_has (g_adj (touch_node n g)) a = has_node (touch_node n g) a" for a
    using k by (auto simp: keys_touch_node)
  moreover have "edge_cost (touch_node n g) u v = edge_cost (touch_node n g) v u" for u v
    using s[of u v] by (simp add: edge_cost_touch_node[OF k])
  ultimately show ?thesis unfolding graph_ok_def by blast
qed

lemma node_map_touch_node:
  "has_node g a \<Longrightarrow> map_of (g_node (touch_node n g)) a = map_of (g_node g) a"
  by (auto simp: touch_node_def has_node_def dict_has_def update_conv')

lemma add_node_props:
  assumes "graph_ok g"
  shows "graph_ok (add_node n s g)"
    and "edge_cost (add_node n s g) a b = edge_cost g a b"
    and "map_of (g_node (add_node n s g)) n = Some (Some s)"
    and "has_node (add_node n s g) a = (a = n \<or> has_node g a)"
proof -
  let ?g1 = "touch_node n g"
  have ok1: "graph_ok ?g1" using assms by (rule graph_ok_touch_node)
  have adj: "g_adj (add_node n s g) = g_adj ?g1" by (simp add: add_node_def Let_def)
  show hn: "has_node (add_node n s g) a = (a = n \<or> has_node g a)" for a
  proof -
    have "has_node (add_node n s g) a = (a = n \<or> has_node ?g1 a)"
      by (simp add: add_node_def Let_def has_node_def dict_has_update)
    then show ?thesis by (simp add: keys_touch_node)
  qed
  have ec: "edge_cost (add_node n s g) a b = edge_cost ?g1 a b" for a b
    by (simp add: edge_cost_def adj_of_def adj)
  have k: "\<forall>n. dict_has (g_adj g) n = has_node g n" using assms by (simp add: graph_ok_def)
  show "edge_cost (add_node n s g) a b = edge_cost g a b"
    by (simp add: ec edge_cost_touch_node[OF k])
  show "map_of (g_node (add_node n s g)) n = Some (Some s)"
    by (simp add: add_node_def Let_def update_conv')
  show "graph_ok (add_node n s g)"
    unfolding graph_ok_def
  proof (intro conjI allI)
    fix a
    have "dict_has (g_adj ?g1) a = has_node ?g1 a" using ok1 unfolding graph_ok_def by blast
    then show "dict_has (g_adj (add_node n s g)) a = has_node (add_node n s g) a"
      by (auto simp: adj hn keys_touch_node)
  next
    fix u v
    have "edge_cost ?g1 u v = edge_cost ?g1 v u" using ok1 unfolding graph_ok_def by blast
    then show "edge_cost (add_node n s g) u v = edge_cost (add_node n s g) v u"
      by (simp add: ec)
  qed
qed

lemma add_edge_props:
  assumes "graph_ok g"
  shows "graph_ok (add_edge u v c g)"
    and "edge_cost (add_edge u v c g) a b =
           (if (a = u \<and> b = v) \<or> (a = v \<and> b = u) then Some c else edge_cost g a b)"
    and "has_node (add_edge u v c g) a = (a = u \<or> a = v \<or> has_node g a)"
    and "has_node g a \<Longrightarrow> map_of (g_node (add_edge u v c g)) a = map_of (g_node g) a"
proof -
  let ?g2 = "touch_node v (touch_node u g)"
  have ok2: "graph_ok ?g2" using assms by (intro graph_ok_touch_node)
  have k0: "\<forall>n. dict_has (g_adj g) n = has_node g n" using assms by (simp add: graph_ok_def)
  have k1: "\<forall>n. dict_has (g_adj (touch_node u g)) n = has_node (touch_node u g) n"
    using graph_ok_touch_node[OF assms, of u] by (simp add: graph_ok_def)
  have ec2: "edge_cost ?g2 a b = edge_cost g a b" for a b
    by (simp add: edge_cost_touch_node[OF k1] edge_cost_touch_node[OF k0])
  show ec: "edge_cost (add_edge u v c g) a b =
           (if (a = u \<and> b = v) \<or> (a = v \<and> b = u) then Some c else edge_cost g a b)" for a b
  proof -
    have "edge_cost (add_edge u v c g) a b =
            (if a = v \<and> b = u then Some c
             else if a = u \<and> b = v then Some c else edge_cost g a b)"
      unfolding add_edge_def edge_cost_set_adj ec2 by (rule refl)
    then show ?thesis by presburger
  qed
  show hn: "has_node (add_edge u v c g) a = (a = u \<or> a = v \<or> has_node g a)" for a
    by (auto simp: add_edge_def keys_set_adj keys_touch_node)
  show "has_node g a \<Longrightarrow> map_of (g_node (add_edge u v c g)) a = map_of (g_node g) a"
    by (simp add: add_edge_def set_adj_def node_map_touch_node keys_touch_node)
  show "graph_ok (add_edge u v c g)"
    unfolding graph_ok_def
  proof (intro conjI allI)
    fix a
    have "dict_has (g_adj (add_edge u v c g)) a = (a = v \<or> a = u \<or> dict_has (g_adj ?g2) a)"
      by (simp add: add_edge_def keys_set_adj)
    also have "\<dots> = (a = v \<or> a = u \<or> has_node ?g2 a)"
    proof -
      have "dict_has (g_adj ?g2) a = has_node ?g2 a" using ok2 unfolding graph_ok_def by blast
      then show ?thesis by simp
    qed
    also have "\<dots> = has_node (add_edge u v c g) a" by (auto simp: hn keys_touch_node)
    finally show "dict_has (g_adj (add_edge u v c g)) a = has_node (add_edge u v c g) a" .
  next
    fix a b
    have "edge_cost g a b = edge_cost g b a" using assms by (simp add: graph_ok_def)
    then show "edge_cost (add_edge u v c g) a b = edge_cost (add_edge u v c g) b a"
      unfolding ec by auto
  qed
qed

lemma edge_cost_remove_edge:
  "edge_cost (remove_edge (u, v) g) a b =
     (if has_edge g u v \<and> ((a = u \<and> b = v) \<or> (a = v \<and> b = u)) then None else edge_cost g a b)"
proof (cases "has_edge g u v")
  case True
  then have c: "dict_has (g_adj g) u \<and> dict_has (adj_of g u) v"
    using has_edge_in_adj by (simp add: has_edge_def)
  show ?thesis
    using True c by (auto simp: remove_edge_def Let_def edge_cost_del_adj)
next
  case False
  then have "remove_edge (u, v) g = g" by (simp add: remove_edge_def has_edge_def)
  with False show ?thesis by simp
qed

lemma remove_edge_nodes:
  "has_node (remove_edge e g) a = has_node g a"
  "map_of (g_node (remove_edge e g)) a = map_of (g_node g) a"
  by (cases e; simp add: remove_edge_def Let_def del_adj_def has_node_def)+

lemma graph_ok_remove_edge:
  assumes "graph_ok g"
  shows "graph_ok (remove_edge e g)"
proof -
  obtain u v where e: "e = (u, v)" by (cases e)
  show ?thesis
  proof (cases "has_edge g u v")
    case False
    then have "remove_edge (u, v) g = g" by (simp add: remove_edge_def has_edge_def)
    with assms e show ?thesis by simp
  next
    case True
    then have u: "dict_has (g_adj g) u" by (rule has_edge_in_adj)
    from True assms have "has_edge g v u" by (simp add: has_edge_cost graph_ok_def)
    then have v: "dict_has (g_adj g) v" by (rule has_edge_in_adj)
    from True have c: "dict_has (g_adj g) u \<and> dict_has (adj_of g u) v"
      using u by (simp add: has_edge_def)
    have keys: "dict_has (g_adj (remove_edge (u, v) g)) a = dict_has (g_adj g) a" for a
      using c u v by (auto simp: remove_edge_def Let_def keys_del_adj)
    have k: "dict_has (g_adj g) a = has_node g a" for a
      using assms unfolding graph_ok_def by blast
    have s: "edge_cost g a b = edge_cost g b a" for a b
      using assms unfolding graph_ok_def by blast
    have "edge_cost (remove_edge (u, v) g) a b = edge_cost (remove_edge (u, v) g) b a" for a b
      using s[of a b] unfolding edge_cost_remove_edge by auto
    then show ?thesis
      unfolding graph_ok_def e by (simp add: keys remove_edge_nodes k)
  qed
qed

lemma remove_edges_from_props:
  assumes "graph_ok g"
  shows "graph_ok (remove_edges_from es g)"
    and "edge_cost (remove_edges_from es g) a b =
           (if (a, b) \<in> set es \<or> (b, a) \<in> set es then None else edge_cost g a b)"
    and "has_node (remove_edges_from es g) a = has_node g a"
    and "map_of (g_node (remove_edges_from es g)) a = map_of (g_node g) a"
proof -
  have "graph_ok (fold remove_edge es g)
      \<and> (\<forall>a b. edge_cost (fold remove_edge es g) a b =
           (if (a, b) \<in> set es \<or> (b, a) \<in> set es then None else edge_cost g a b))
      \<and> (\<forall>a. has_node (fold remove_edge es g) a = has_node g a)
      \<and> (\<forall>a. map_of (g_node (fold remove_edge es g)) a = map_of (g_node g) a)"
    using assms
  proof (induction es arbitrary: g)
    case Nil
    then show ?case by simp
  next
    case (Cons e es)
    obtain u v where e: "e = (u, v)" by (cases e)
    have ok1: "graph_ok (remove_edge e g)" using Cons.prems by (rule graph_ok_remove_edge)
    note IH = Cons.IH[OF ok1]
    have sym: "edge_cost g x y = edge_cost g y x" for x y
      using Cons.prems by (simp add: graph_ok_def)
    have none: "\<not> has_edge g u v \<Longrightarrow> edge_cost g u v = None \<and> edge_cost g v u = None"
      using sym[of v u] by (simp add: has_edge_cost)
    have e1: "edge_cost (fold remove_edge es (remove_edge (u, v) g)) a b =
           (if (a, b) \<in> set es \<or> (b, a) \<in> set es then None
            else edge_cost (remove_edge (u, v) g) a b)" for a b
      using IH unfolding e by blast
    have "edge_cost (fold remove_edge (e # es) g) a b =
           (if (a, b) \<in> set (e # es) \<or> (b, a) \<in> set (e # es) then None else edge_cost g a b)" for a b
      using none unfolding e by (simp add: e1 edge_cost_remove_edge)
    moreover have "has_node (fold remove_edge (e # es) g) a = has_node g a" for a
      using IH by (simp add: remove_edge_nodes)
    moreover have "map_of (g_node (fold remove_edge (e # es) g)) a = map_of (g_node g) a" for a
      using IH by (simp add: remove_edge_nodes)
    moreover have "graph_ok (fold remove_edge (e # es) g)" using IH by simp
    ultimately show ?case by blast
  qed
  then show "graph_ok (remove_edges_from es g)"
    and "edge_cost (remove_edges_from es g) a b =
           (if (a, b) \<in> set es \<or> (b, a) \<in> set es then None else edge_cost g a b)"
    and "has_node (remove_edges_from es g) a = has_node g a"
    and "map_of (g_node (remove_edges_from es g)) a = map_of (g_node g) a"
    by (simp_all add: remove_edges_from_def)
qed

lemma set_edges_at: "(a, b) \<in> set (edges_at g n) \<longleftrightarrow> a = n \<and> has_edge g n b"
proof -
  have "set (map (\<lambda>(v, c). (n, v)) al) = (\<lambda>v. (n, v)) ` fst ` set al" for al :: "(node \<times> real) list"
    by (induction al) auto
  then show ?thesis by (auto simp: edges_at_def has_edge_def dict_has_iff)
qed

lemma install_links_props:
  assumes "graph_ok g" and "distinct (map fst ls)"
  shows "graph_ok (install_links src ls g)"
    and "edge_cost (install_links src ls g) a b =
           (if a = src \<and> dict_has ls b then map_of ls b
            else if b = src \<and> dict_has ls a then map_of ls a
            else edge_cost g a b)"
    and "has_node g a \<Longrightarrow> map_of (g_node (install_links src ls g)) a = map_of (g_node g) a"
proof -
  let ?f = "\<lambda>(neighbor, c). add_edge src neighbor c"
  have "graph_ok (fold ?f ls g)
      \<and> (\<forall>a b. edge_cost (fold ?f ls g) a b =
           (if a = src \<and> dict_has ls b then map_of ls b
            else if b = src \<and> dict_has ls a then map_of ls a
            else edge_cost g a b))
      \<and> (\<forall>a. has_node g a \<longrightarrow> map_of (g_node (fold ?f ls g)) a = map_of (g_node g) a)"
    using assms
  proof (induction ls arbitrary: g)
    case Nil
    then show ?case by (simp add: dict_has_def)
  next
    case (Cons x ls)
    obtain n c where x: "x = (n, c)" by (cases x)
    note ae = add_edge_props[OF Cons.prems(1), where u = src and v = n and c = c]
    from Cons.prems(2) x have d: "distinct (map fst ls)" and nin: "map_of ls n = None"
      by (auto simp: map_of_eq_None_iff)
    note IH = Cons.IH[OF ae(1) d]
    have f: "fold ?f (x # ls) g = fold ?f ls (add_edge src n c g)" by (simp add: x)
    have e1: "edge_cost (fold ?f ls (add_edge src n c g)) a b =
           (if a = src \<and> dict_has ls b then map_of ls b
            else if b = src \<and> dict_has ls a then map_of ls a
            else edge_cost (add_edge src n c g) a b)" for a b
      using IH by blast
    have nh: "\<not> dict_has ls n" using nin by (simp add: dict_has_def)
    have dh: "dict_has (x # ls) k = (k = n \<or> dict_has ls k)" for k
      by (auto simp: dict_has_def x)
    have mo: "map_of (x # ls) k = (if k = n then Some c else map_of ls k)" for k
      by (simp add: x)
    have "edge_cost (fold ?f (x # ls) g) a b =
           (if a = src \<and> dict_has (x # ls) b then map_of (x # ls) b
            else if b = src \<and> dict_has (x # ls) a then map_of (x # ls) a
            else edge_cost g a b)" for a b
      unfolding f e1 ae(2) dh mo using nh by auto
    moreover have "has_node g a \<longrightarrow> map_of (g_node (fold ?f (x # ls) g)) a = map_of (g_node g) a" for a
    proof
      assume h: "has_node g a"
      then have "has_node (add_edge src n c g) a" by (simp add: ae(3))
      with IH have "map_of (g_node (fold ?f ls (add_edge src n c g))) a
                      = map_of (g_node (add_edge src n c g)) a" by blast
      with ae(4)[OF h] show "map_of (g_node (fold ?f (x # ls) g)) a = map_of (g_node g) a"
        unfolding f by simp
    qed
    moreover have "graph_ok (fold ?f (x # ls) g)" unfolding f using IH by blast
    ultimately show ?case by blast
  qed
  then show "graph_ok (install_links src ls g)"
    and "edge_cost (install_links src ls g) a b =
           (if a = src \<and> dict_has ls b then map_of ls b
            else if b = src \<and> dict_has ls a then map_of ls a
            else edge_cost g a b)"
    and "has_node g a \<Longrightarrow> map_of (g_node (install_links src ls g)) a = map_of (g_node g) a"
    by (simp_all add: install_links_def)
qed

lemma graph_ok_empty: "graph_ok empty_graph"
  by (simp add: graph_ok_def empty_graph_def dict_has_def has_node_def edge_cost_def adj_of_def)

lemma process_lsu_accepted:
  assumes "process_lsu E now r l = Inr (Accepted, r')"
  shows "topology r' =
           install_links (source_id (data l)) (links (data l))
             (remove_edges_from
                (edges_at (add_node (source_id (data l)) (sequence_number (data l)) (topology r))
                   (source_id (data l)))
                (add_node (source_id (data l)) (sequence_number (data l)) (topology r)))"
    and "routing_table r' = routing_table r"
  using assms by (auto simp: process_lsu_def Let_def split: if_splits sum.splits)

lemma accepted_topology:
  assumes "process_lsu E now r l = Inr (Accepted, r')"
    and "graph_ok (topology r)"
    and "distinct (map fst (links (data l)))"
  shows "(\<forall>a b. edge_cost (topology r') a b =
           (if a = source_id (data l) then map_of (links (data l)) b
            else if b = source_id (data l) then map_of (links (data l)) a
            else edge_cost (topology r) a b))
       \<and> stored_seq (topology r') (source_id (data l)) = sequence_number (data l)
       \<and> graph_ok (topology r')"
proof -
  let ?S = "source_id (data l)" and ?L = "links (data l)"
  let ?g1 = "add_node ?S (sequence_number (data l)) (topology r)"
  let ?g2 = "remove_edges_from (edges_at ?g1 ?S) ?g1"
  let ?g3 = "install_links ?S ?L ?g2"
  note n1 = add_node_props[OF assms(2), of ?S "sequence_number (data l)"]
  note n2 = remove_edges_from_props[OF n1(1), of "edges_at ?g1 ?S"]
  note n3 = install_links_props[OF n2(1) assms(3), of ?S]
  have t: "topology r' = ?g3" using assms(1) by (rule process_lsu_accepted)
  have sym1: "edge_cost ?g1 a b = edge_cost ?g1 b a" for a b
    using n1(1) unfolding graph_ok_def by blast
  have e2: "edge_cost ?g2 a b = (if a = ?S \<or> b = ?S then None else edge_cost (topology r) a b)"
    for a b
  proof (cases "a = ?S \<or> b = ?S")
    case False
    then show ?thesis by (simp add: n2(2) set_edges_at n1(2))
  next
    case True
    then consider "a = ?S" | "b = ?S" by blast
    then have "edge_cost ?g2 a b = None"
    proof cases
      case 1
      show ?thesis
      proof (cases "has_edge ?g1 ?S b")
        case True
        with 1 show ?thesis by (simp add: n2(2) set_edges_at)
      next
        case False
        then have "edge_cost ?g1 a b = None" using 1 by (simp add: has_edge_cost)
        then show ?thesis by (simp add: n2(2))
      qed
    next
      case 2
      show ?thesis
      proof (cases "has_edge ?g1 ?S a")
        case True
        with 2 show ?thesis by (simp add: n2(2) set_edges_at)
      next
        case False
        then have "edge_cost ?g1 a b = None" using 2 sym1[of a b] by (simp add: has_edge_cost)
        then show ?thesis by (simp add: n2(2))
      qed
    qed
    with True show ?thesis by simp
  qed
  have none: "\<not> dict_has ?L k \<Longrightarrow> map_of ?L k = None" for k by (simp add: dict_has_def)
  have e3: "edge_cost ?g3 a b =
           (if a = ?S then map_of ?L b else if b = ?S then map_of ?L a
            else edge_cost (topology r) a b)" for a b
  proof (cases "a = ?S")
    case True
    then show ?thesis using none[of b] by (simp add: n3(2) e2)
  next
    case False
    then show ?thesis using none[of a] by (simp add: n3(2) e2)
  qed
  have hn: "has_node ?g2 ?S" by (simp add: n2(3) n1(4))
  have "map_of (g_node ?g3) ?S = Some (Some (sequence_number (data l)))"
    using n3(3)[OF hn] by (simp add: n2(4) n1(3))
  then have sq: "stored_seq ?g3 ?S = sequence_number (data l)" by (simp add: stored_seq_def)
  show ?thesis unfolding t using e3 sq n3(1) by blast
qed

lemma process_lsu_graph_ok:
  assumes "process_lsu E now r l = Inr (out, r')"
    and "graph_ok (topology r)"
    and "distinct (map fst (links (data l)))"
  shows "graph_ok (topology r')"
proof (cases "out = Accepted")
  case True
  with assms accepted_topology[of E now r l r'] show ?thesis by simp
next
  case False
  with assms(1) have "topology r' = topology r"
    by (auto simp: process_lsu_def Let_def split: if_splits sum.splits)
  with assms(2) show ?thesis by simp
qed

lemma receive_all_graph_ok:
  assumes "receive_all E r evs = Inr (outs, r')"
    and "graph_ok (topology r)"
    and "\<forall>ev \<in> set evs. distinct (map fst (links (data (snd ev))))"
  shows "graph_ok (topology r')"
  using assms
proof (induction evs arbitrary: r outs)
  case Nil
  then show ?case by simp
next
  case (Cons ev evs)
  obtain t l where ev: "ev = (t, l)" by (cases ev)
  from Cons.prems(1) ev obtain out r1 outs1 where
    p: "process_lsu E t r l = Inr (out, r1)" and
    rest: "receive_all E r1 evs = Inr (outs1, r')"
    by (auto split: sum.splits prod.splits)
  from Cons.prems(3) ev have d: "distinct (map fst (links (data l)))" by simp
  have ok1: "graph_ok (topology r1)" using p Cons.prems(2) d by (rule process_lsu_graph_ok)
  from Cons.IH[OF rest ok1] Cons.prems(3) show ?case by simp
qed

text \<open>
  C1, as the code has it: after an accepted advertisement of source \<open>S\<close>, the edges at
  \<open>S\<close> are exactly the advertised links with the advertised costs, seen from either end;
  the sequence number stored for \<open>S\<close> is the advertised one; every edge between two other
  nodes is as before. The database is one undirected graph, so an edge between \<open>S\<close> and
  another source is replaced or removed too.
\<close>

theorem accepted_replaces_edges_at_source:
  assumes "process_lsu E now r l = Inr (Accepted, r')"
    and "graph_ok (topology r)"
    and "distinct (map fst (links (data l)))"
  shows "(\<forall>a b. edge_cost (topology r') a b =
           (if a = source_id (data l) then map_of (links (data l)) b
            else if b = source_id (data l) then map_of (links (data l)) a
            else edge_cost (topology r) a b))
       \<and> stored_seq (topology r') (source_id (data l)) = sequence_number (data l)
       \<and> graph_ok (topology r')"
  using assms by (rule accepted_topology)

lemma replaced_step1:
  "process_lsu sample_env 0 (Router_init ''R0'' 1 1)
     \<lparr>data = \<lparr>source_id = ''R1'', sequence_number = 1, links = [(''R0'', 1), (''R2'', 5)]\<rparr>,
      signature = 6\<rparr> = Inr (Accepted, replaced_router)"
proof -
  let ?d = "\<lparr>source_id = ''R1'', sequence_number = 1, links = [(''R0'', 1), (''R2'', 5)]\<rparr>"
  have v: "verify_signature sample_env ?d 6 ''R1'' = Inr True"
    by (simp add: verify_signature_def sign_message_def sample_env_def)
  have g: "install_links ''R1'' [(''R0'', 1), (''R2'', 5)]
     (remove_edges_from (edges_at (add_node ''R1'' 1 empty_graph) ''R1'')
        (add_node ''R1'' 1 empty_graph)) = topology replaced_router"
    by (simp add: graph_ops Let_def replaced_router_def)
  have h: "\<not> has_node empty_graph ''R1''"
    by (simp add: has_node_def dict_has_def empty_graph_def)
  show ?thesis
    using v by (simp add: process_lsu_def Router_init_def evict_def Let_def g h)
               (simp add: replaced_router_def Router_init_def)
qed

lemma replaced_step2:
  "process_lsu sample_env 0 replaced_router
     \<lparr>data = \<lparr>source_id = ''R2'', sequence_number = 1, links = [(''R0'', 2)]\<rparr>,
      signature = 6\<rparr> = Inr (Accepted, overwritten_router)"
proof -
  let ?d = "\<lparr>source_id = ''R2'', sequence_number = 1, links = [(''R0'', 2)]\<rparr>"
  have v: "verify_signature sample_env ?d 6 ''R2'' = Inr True"
    by (simp add: verify_signature_def sign_message_def sample_env_def)
  have g: "install_links ''R2'' [(''R0'', 2)]
     (remove_edges_from (edges_at (add_node ''R2'' 1 (topology replaced_router)) ''R2'')
        (add_node ''R2'' 1 (topology replaced_router))) = topology overwritten_router"
    by (simp add: graph_ops Let_def replaced_router_def overwritten_router_def)
  have h: "has_node (topology replaced_router) ''R2''"
    "stored_seq (topology replaced_router) ''R2'' = 0"
    by (simp_all add: has_node_def dict_has_def stored_seq_def replaced_router_def)
  have e: "evict 0 replaced_router = [0]"
    by (simp add: evict_def replaced_router_def Router_init_def)
  have lim: "lsu_rate_limit replaced_router = 10"
    by (simp add: replaced_router_def Router_init_def)
  show ?thesis
    using v by (simp add: process_lsu_def Let_def g h e lim)
               (simp add: replaced_router_def overwritten_router_def Router_init_def)
qed

theorem accepted_replaces_edges_at_source_witness:
  "process_lsu sample_env 0 (Router_init ''R0'' 1 1)
     \<lparr>data = \<lparr>source_id = ''R1'', sequence_number = 1, links = [(''R0'', 1), (''R2'', 5)]\<rparr>,
      signature = 6\<rparr> = Inr (Accepted, replaced_router)
   \<and> graph_ok (topology (Router_init ''R0'' 1 1))
   \<and> distinct (map fst [(''R0'', 1 :: real), (''R2'', 5)])
   \<and> edge_cost (topology replaced_router) ''R1'' ''R2'' = Some 5
   \<and> edge_cost (topology replaced_router) ''R2'' ''R1'' = Some 5
   \<and> edge_cost (topology replaced_router) ''R1'' ''R3'' = None
   \<and> stored_seq (topology replaced_router) ''R1'' = 1"
proof -
  let ?l = "\<lparr>data = \<lparr>source_id = ''R1'', sequence_number = 1,
                     links = [(''R0'', 1), (''R2'', 5)]\<rparr>, signature = 6\<rparr>"
  have ok: "graph_ok (topology (Router_init ''R0'' 1 1))"
    by (simp add: Router_init_def graph_ok_empty)
  have d: "distinct (map fst (links (data ?l)))" by simp
  from accepted_replaces_edges_at_source [OF replaced_step1 ok d]
  have "edge_cost (topology replaced_router) ''R1'' ''R2'' = Some 5"
    and "edge_cost (topology replaced_router) ''R2'' ''R1'' = Some 5"
    and "edge_cost (topology replaced_router) ''R1'' ''R3'' = None"
    and "stored_seq (topology replaced_router) ''R1'' = 1"
    by simp_all
  with replaced_step1 ok show ?thesis by simp
qed

text \<open>
  \<open>R1\<close> advertises links to \<open>R0\<close> and \<open>R2\<close>, then \<open>R2\<close> advertises a link to \<open>R0\<close>
  only. Both are accepted, and the edge from \<open>R1\<close> to \<open>R2\<close> of the advertisement of
  \<open>R1\<close>, still its most recent one, is gone.
\<close>

theorem other_source_edges_not_intact:
  "process_lsu sample_env 0 (Router_init ''R0'' 1 1)
     \<lparr>data = \<lparr>source_id = ''R1'', sequence_number = 1, links = [(''R0'', 1), (''R2'', 5)]\<rparr>,
      signature = 6\<rparr> = Inr (Accepted, replaced_router)
   \<and> process_lsu sample_env 0 replaced_router
     \<lparr>data = \<lparr>source_id = ''R2'', sequence_number = 1, links = [(''R0'', 2)]\<rparr>,
      signature = 6\<rparr> = Inr (Accepted, overwritten_router)
   \<and> edge_cost (topology replaced_router) ''R1'' ''R2'' = Some 5
   \<and> edge_cost (topology overwritten_router) ''R1'' ''R2'' = None
   \<and> edges_at (topology overwritten_router) ''R1'' = [(''R1'', ''R0'')]"
  using replaced_step1 replaced_step2
  by (simp add: replaced_router_def overwritten_router_def edge_cost_def adj_of_def edges_at_def)

end
